theory Spec2Isabelle
  imports
    Main
    "HOL-Library.Char_ord"
    "HOL-Library.List_Lexorder"
    "HOL-Library.Product_Lexorder"
begin

section \<open>Data model (graph.h, parser.h)\<close>

text \<open>
  \<^verbatim>\<open>struct EdgeData { int drivingTime; int walkingTime; };\<close>
  The value \<open>-1\<close> in either field is the "unavailable" sentinel (parser.cpp maps the
  text \<open>X\<close> to it; every other value is what \<open>stoi\<close> returns, a number in the range of
  \<open>int\<close>, negative ones included).
\<close>

record EdgeData =
  drivingTime :: int
  walkingTime :: int

text \<open>
  \<^verbatim>\<open>struct Location { string name; int id; string code; bool hasParking; };\<close>
\<close>

record Location =
  name :: string
  id_loc :: int
  code :: string
  hasParking :: bool

text \<open>
  \<^verbatim>\<open>map<string, vector<pair<string, EdgeData>>> adj;\<close>
  The adjacency map is an association list with one entry per key. The order of the
  entries of the outer list is never observed by the routines below (the only loop over
  the keys initialises \<open>dist\<close>); the order of each neighbour vector is the order of
  insertion, as in the source.
\<close>

type_synonym Graph = "(string \<times> (string \<times> EdgeData) list) list"

text \<open>
  C++ \<open>int\<close> has 32 bits. The values of the program are modelled by \<open>int\<close>, and every
  \<open>+\<close> of the source by \<open>int_add\<close>, the sum that the compiled program computes: the
  mathematical sum brought back into the range from \<open>INT_MIN\<close> to \<open>INT_MAX\<close> modulo
  \<open>2 ^ 32\<close> (signed overflow is undefined behaviour in C++; the compiled code wraps).
\<close>

definition INT_MAX :: int where
  "INT_MAX = 2147483647"

definition INT_MIN :: int where
  "INT_MIN = - 2147483648"

definition wrapInt :: "int \<Rightarrow> int" where
  "wrapInt x = (x + 2147483648) mod 4294967296 - 2147483648"

definition int_add :: "int \<Rightarrow> int \<Rightarrow> int" where
  "int_add a b = wrapInt (a + b)"

text \<open>\<open>adj[u]\<close> on the copied map: a missing key reads as the empty vector.\<close>

definition adjOf :: "Graph \<Rightarrow> string \<Rightarrow> (string \<times> EdgeData) list" where
  "adjOf g u = (case map_of g u of None \<Rightarrow> [] | Some es \<Rightarrow> es)"

text \<open>\<open>adj[k].push_back(x)\<close>: creates the key when it is missing.\<close>

fun push_back_adj :: "Graph \<Rightarrow> string \<Rightarrow> (string \<times> EdgeData) \<Rightarrow> Graph" where
  "push_back_adj [] k x = [(k, [x])]"
| "push_back_adj ((k', es) # g) k x =
     (if k' = k then (k', es @ [x]) # g else (k', es) # push_back_adj g k x)"

text \<open>
  \<^verbatim>\<open>
  void Graph::addEdge(const string& from, const string& to, int drivingTime, int walkingTime) {
      EdgeData data = { drivingTime, walkingTime };
      adj[from].push_back({to, data});
      adj[to].push_back({from, data});
  }
  \<close>
\<close>

definition addEdge :: "Graph \<Rightarrow> string \<Rightarrow> string \<Rightarrow> int \<Rightarrow> int \<Rightarrow> Graph" where
  "addEdge g from to dt wt =
     (let data = \<lparr>drivingTime = dt, walkingTime = wt\<rparr>;
          g1 = push_back_adj g from (to, data)
      in push_back_adj g1 to (from, data))"

section \<open>The search loop shared by the three searches of route.cpp\<close>

text \<open>
  \<open>dijkstraShortestPath\<close>, \<open>findAlternativeRoute\<close> and \<open>dijkstraRestricted\<close> repeat
  the same text: initialisation of \<open>dist\<close>, the \<open>while (!pq.empty())\<close> loop and the
  reconstruction of the path from \<open>prev\<close>. They differ only in the \<open>continue\<close> lines at
  the head of the body of the inner \<open>for\<close>. The model has the loop once and takes those
  lines as the predicate \<open>skip u v\<close>.

  \<^item> \<open>map<string,int> dist\<close> is read only through \<open>dist[k]\<close>, which yields \<open>0\<close> for a key
    that was never stored; it is a total function with that default.
  \<^item> \<open>map<string,string> prev\<close> is tested with \<open>count\<close>, so it is a partial map.
  \<^item> \<open>priority_queue<pair<int,string>, ..., greater<>>\<close> is a bag of pairs whose top is
    the least pair in the lexicographic order of \<open>pair\<close> (first the distance, then the
    string); equal pairs cannot be told apart, so a list from which one copy of the
    least element is removed behaves the same.
\<close>

record DState =
  dist :: "string \<Rightarrow> int"
  prev :: "string \<rightharpoonup> string"
  visited :: "string set"
  pq :: "(int \<times> string) list"

text \<open>
  \<^verbatim>\<open>
  for (const auto& node : adj) dist[node.first] = INT_MAX;
  dist[source] = 0;
  pq.push({0, source});
  \<close>
\<close>

definition initState :: "Graph \<Rightarrow> string \<Rightarrow> DState" where
  "initState g source =
     \<lparr>dist = (\<lambda>k. case map_of g k of None \<Rightarrow> 0 | Some _ \<Rightarrow> INT_MAX)(source := 0),
      prev = Map.empty,
      visited = {},
      pq = [(0, source)]\<rparr>"

text \<open>
  The body of \<^verbatim>\<open>for (const auto& [v, edge] : adj[u])\<close>:
  \<^verbatim>\<open>
  if (edge.drivingTime == -1) continue;
  <the continue lines of the function: skip u v>
  if (dist[v] > dist[u] + edge.drivingTime) {
      dist[v] = dist[u] + edge.drivingTime;
      prev[v] = u;
      pq.push({dist[v], v});
  }
  \<close>
\<close>

definition relax :: "(string \<Rightarrow> string \<Rightarrow> bool) \<Rightarrow> string \<Rightarrow> DState \<Rightarrow> string \<times> EdgeData \<Rightarrow> DState" where
  "relax skip u s ve =
     (let v = fst ve; edge = snd ve in
      if drivingTime edge = -1 then s
      else if skip u v then s
      else if dist s v > int_add (dist s u) (drivingTime edge) then
        s\<lparr>dist := (dist s)(v := int_add (dist s u) (drivingTime edge)),
          prev := (prev s)(v \<mapsto> u),
          pq := pq s @ [(int_add (dist s u) (drivingTime edge), v)]\<rparr>
      else s)"

definition relaxAll :: "(string \<Rightarrow> string \<Rightarrow> bool) \<Rightarrow> Graph \<Rightarrow> string \<Rightarrow> DState \<Rightarrow> DState" where
  "relaxAll skip g u s = foldl (relax skip u) s (adjOf g u)"

text \<open>\<open>pq.top()\<close> of a non-empty queue \<open>x # xs\<close>.\<close>

definition pq_top :: "int \<times> string \<Rightarrow> (int \<times> string) list \<Rightarrow> int \<times> string" where
  "pq_top x xs = fold min xs x"

text \<open>Every code that a search can ever push: the neighbours stored in the graph.\<close>

definition neighbourCodes :: "Graph \<Rightarrow> string set" where
  "neighbourCodes g = (\<Union>es \<in> snd ` set g. fst ` set es)"

definition pending :: "Graph \<Rightarrow> DState \<Rightarrow> string set" where
  "pending g s = (neighbourCodes g \<union> snd ` set (pq s)) - visited s"

lemma pq_top_eq_Min: "pq_top x xs = Min (set (x # xs))"
  by (simp only: pq_top_def Min.set_eq_fold)

lemma pq_top_in: "pq_top x xs \<in> set (x # xs)"
  unfolding pq_top_eq_Min by (rule Min_in) simp_all

lemma pq_top_le: "y \<in> set (x # xs) \<Longrightarrow> pq_top x xs \<le> y"
  unfolding pq_top_eq_Min by (rule Min_le) simp_all

lemma adjOf_neighbourCodes: "fst ` set (adjOf g u) \<subseteq> neighbourCodes g"
proof (cases "map_of g u")
  case None
  then show ?thesis by (simp add: adjOf_def)
next
  case (Some es)
  then have "(u, es) \<in> set g" by (rule map_of_SomeD)
  then have "es \<in> snd ` set g" by force
  with Some show ?thesis by (auto simp: adjOf_def neighbourCodes_def)
qed

lemma relax_visited [simp]: "visited (relax skip u s ve) = visited s"
  by (simp add: relax_def Let_def)

lemma relax_pq_codes: "snd ` set (pq (relax skip u s ve)) \<subseteq> insert (fst ve) (snd ` set (pq s))"
  by (auto simp: relax_def Let_def)

lemma foldl_relax_visited [simp]: "visited (foldl (relax skip u) s es) = visited s"
  by (induction es arbitrary: s) simp_all

lemma foldl_relax_pq_codes:
  "snd ` set (pq (foldl (relax skip u) s es)) \<subseteq> fst ` set es \<union> snd ` set (pq s)"
proof (induction es arbitrary: s)
  case Nil
  show ?case by simp
next
  case (Cons e es)
  from Cons.IH [of "relax skip u s e"] relax_pq_codes [of skip u s e]
  show ?case by auto
qed

lemma relaxAll_visited [simp]: "visited (relaxAll skip g u s) = visited s"
  by (simp add: relaxAll_def)

lemma relaxAll_pq_codes:
  "snd ` set (pq (relaxAll skip g u s)) \<subseteq> neighbourCodes g \<union> snd ` set (pq s)"
  using foldl_relax_pq_codes [of skip u s "adjOf g u"] adjOf_neighbourCodes [of g u]
  unfolding relaxAll_def by blast

lemma finite_pending [simp]: "finite (pending g s)"
  by (simp add: pending_def neighbourCodes_def)

lemma pending_skip:
  "pq s = x # xs \<Longrightarrow> pending g (s\<lparr>pq := remove1 t (x # xs)\<rparr>) \<subseteq> pending g s"
  using set_remove1_subset [of t "x # xs"] by (auto simp: pending_def)

lemma pending_visit:
  assumes "pq s = x # xs" and "u = snd (pq_top x xs)" and "u \<notin> visited s"
  shows "pending g (relaxAll skip g u (s\<lparr>pq := remove1 t (x # xs), visited := insert u (visited s)\<rparr>))
         \<subset> pending g s"
proof -
  define s1 where "s1 = s\<lparr>pq := remove1 t (x # xs), visited := insert u (visited s)\<rparr>"
  have in_pq: "u \<in> snd ` set (pq s)"
    using pq_top_in [of x xs] assms(1,2) by force
  then have u_in: "u \<in> pending g s" using assms(3) by (simp add: pending_def)
  have a: "snd ` set (pq (relaxAll skip g u s1)) \<subseteq> neighbourCodes g \<union> snd ` set (pq s1)"
    by (rule relaxAll_pq_codes)
  have "set (pq s1) \<subseteq> set (pq s)"
    using set_remove1_subset [of t "x # xs"] assms(1) by (simp add: s1_def del: remove1.simps)
  then have b: "snd ` set (pq s1) \<subseteq> snd ` set (pq s)" by blast
  have c: "visited (relaxAll skip g u s1) = insert u (visited s)"
    by (simp add: s1_def)
  have "pending g (relaxAll skip g u s1) \<subseteq> pending g s - {u}"
    unfolding pending_def c using a b by blast
  with u_in show ?thesis unfolding s1_def by blast
qed

text \<open>
  \<^verbatim>\<open>
  while (!pq.empty()) {
      auto [d, u] = pq.top(); pq.pop();
      if (visited.count(u)) continue;
      visited.insert(u);
      for (const auto& [v, edge] : adj[u]) { ... }
  }
  \<close>
\<close>

function dijkstraLoop :: "(string \<Rightarrow> string \<Rightarrow> bool) \<Rightarrow> Graph \<Rightarrow> DState \<Rightarrow> DState" where
  "dijkstraLoop skip g s =
     (case pq s of
        [] \<Rightarrow> s
      | x # xs \<Rightarrow>
          let top = pq_top x xs;
              u = snd top;
              s1 = s\<lparr>pq := remove1 top (x # xs)\<rparr>
          in if u \<in> visited s1 then dijkstraLoop skip g s1
             else dijkstraLoop skip g (relaxAll skip g u (s1\<lparr>visited := insert u (visited s1)\<rparr>)))"
  by pat_completeness auto
termination
proof (relation "measures [\<lambda>(skip, g, s). card (pending g s), \<lambda>(skip, g, s). length (pq s)]", goal_cases)
  case 1
  show ?case by simp
next
  case (2 skip g s x xs top u s1)
  have sub: "pending g s1 \<subseteq> pending g s"
    unfolding \<open>s1 = _\<close> using \<open>pq s = x # xs\<close> by (rule pending_skip)
  have le: "card (pending g s1) \<le> card (pending g s)"
    by (rule card_mono [OF finite_pending sub])
  have "top \<in> set (x # xs)"
    unfolding \<open>top = _\<close> by (rule pq_top_in)
  then have "length (remove1 top (x # xs)) < length (x # xs)"
    by (simp only: length_remove1 if_True) simp
  then have "length (pq s1) < length (pq s)"
    by (simp add: \<open>s1 = _\<close> \<open>pq s = x # xs\<close> del: remove1.simps)
  with le show ?case by auto
next
  case (3 skip g s x xs top u s1)
  have "u \<notin> visited s" using \<open>u \<notin> visited s1\<close> by (simp add: \<open>s1 = _\<close>)
  with \<open>pq s = x # xs\<close> \<open>u = snd top\<close> \<open>top = pq_top x xs\<close>
  have "pending g (relaxAll skip g u (s\<lparr>pq := remove1 top (x # xs), visited := insert u (visited s)\<rparr>))
         \<subset> pending g s"
    by (intro pending_visit) simp_all
  moreover have "s1\<lparr>visited := insert u (visited s1)\<rparr>
      = s\<lparr>pq := remove1 top (x # xs), visited := insert u (visited s)\<rparr>"
    by (simp add: \<open>s1 = _\<close>)
  ultimately have "card (pending g (relaxAll skip g u (s1\<lparr>visited := insert u (visited s1)\<rparr>)))
      < card (pending g s)"
    by (simp only: psubset_card_mono [OF finite_pending])
  then show ?case by simp
qed

declare dijkstraLoop.simps [simp del]

section \<open>Reconstruction of the path from \<open>prev\<close>\<close>

text \<open>
  \<open>prev[at]\<close> on a \<open>std::map\<close> stores and yields the empty string when \<open>at\<close> has no
  entry; a later \<open>prev[at]\<close> then reads that empty string, so the read is a lookup
  with the empty string as default.
\<close>

definition prevAt :: "(string \<rightharpoonup> string) \<Rightarrow> string \<Rightarrow> string" where
  "prevAt pr at = (case pr at of None \<Rightarrow> [] | Some u \<Rightarrow> u)"

text \<open>
  \<^verbatim>\<open>
  for (string at = dest; at != source; at = prev[at])
      path.push_back(at);
  \<close>
  Nothing in the loop bounds the number of rounds: \<open>None\<close> is the loop that never
  leaves.
\<close>

partial_function (option) walkBack ::
  "(string \<rightharpoonup> string) \<Rightarrow> string \<Rightarrow> string \<Rightarrow> string list \<Rightarrow> string list option" where
  "walkBack pr source at path =
     (if at = source then Some path else walkBack pr source (prevAt pr at) (path @ [at]))"

declare walkBack.simps [code]

text \<open>
  \<^verbatim>\<open>
  if (!prev.count(dest)) return {};
  vector<string> path;
  for (...) path.push_back(at);
  path.push_back(source);
  reverse(path.begin(), path.end());
  return path;
  \<close>
\<close>

definition reconstruct :: "(string \<rightharpoonup> string) \<Rightarrow> string \<Rightarrow> string \<Rightarrow> string list option" where
  "reconstruct pr source dest =
     (if pr dest = None then Some []
      else map_option (\<lambda>path. rev (path @ [source])) (walkBack pr source dest []))"

section \<open>The searches of route.cpp\<close>

text \<open>\<open>dijkstraShortestPath\<close> (route.cpp 23-59): no \<open>continue\<close> line of its own.\<close>

definition skipShortest :: "string \<Rightarrow> string \<Rightarrow> bool" where
  "skipShortest u v = False"

definition dijkstraShortestPath :: "Graph \<Rightarrow> string \<Rightarrow> string \<Rightarrow> string list option" where
  "dijkstraShortestPath g source dest =
     reconstruct (prev (dijkstraLoop skipShortest g (initState g source))) source dest"

text \<open>
  \<open>dijkstraRestricted\<close> (route.cpp 198-239):
  \<^verbatim>\<open>
  if (avoidNodes.count(v)) continue;
  if (avoidSegments.count({u, v}) || avoidSegments.count({v, u})) continue;
  \<close>
\<close>

definition skipRestricted :: "string set \<Rightarrow> (string \<times> string) set \<Rightarrow> string \<Rightarrow> string \<Rightarrow> bool" where
  "skipRestricted avoidNodes avoidSegments u v =
     (v \<in> avoidNodes \<or> (u, v) \<in> avoidSegments \<or> (v, u) \<in> avoidSegments)"

definition dijkstraRestricted ::
  "Graph \<Rightarrow> string \<Rightarrow> string \<Rightarrow> string set \<Rightarrow> (string \<times> string) set \<Rightarrow> string list option" where
  "dijkstraRestricted g source dest avoidNodes avoidSegments =
     reconstruct
       (prev (dijkstraLoop (skipRestricted avoidNodes avoidSegments) g (initState g source)))
       source dest"

text \<open>
  \<open>findAlternativeRoute\<close> (route.cpp 72-122) first derives its two sets from the main
  path:
  \<^verbatim>\<open>
  set<string> forbiddenNodes(mainPath.begin() + 1, mainPath.end() - 1);
  set<pair<string, string>> forbiddenEdges;
  for (size_t i = 0; i < mainPath.size() - 1; ++i) {
      forbiddenEdges.insert({mainPath[i], mainPath[i+1]});
      forbiddenEdges.insert({mainPath[i+1], mainPath[i]});
  }
  \<close>
  With fewer than two elements the iterator pair \<open>(begin() + 1, end() - 1)\<close> is not a
  range of the vector (its first iterator lies behind its second), and for the empty
  vector \<open>mainPath.size() - 1\<close> wraps to the largest \<open>size_t\<close>, so the loop reads
  \<open>mainPath[0]\<close> and \<open>mainPath[1]\<close> of an empty vector. Both are reads outside the
  vector; the model returns the error \<open>OutOfBounds\<close> there.
\<close>

datatype error = OutOfBounds

definition forbiddenNodesOf :: "string list \<Rightarrow> error + string set" where
  "forbiddenNodesOf mainPath =
     (if length mainPath < 2 then Inl OutOfBounds else Inr (set (butlast (tl mainPath))))"

fun segmentPairs :: "string list \<Rightarrow> (string \<times> string) list" where
  "segmentPairs (a # b # rest) = (a, b) # (b, a) # segmentPairs (b # rest)"
| "segmentPairs _ = []"

definition forbiddenEdgesOf :: "string list \<Rightarrow> error + (string \<times> string) set" where
  "forbiddenEdgesOf mainPath =
     (if mainPath = [] then Inl OutOfBounds else Inr (set (segmentPairs mainPath)))"

text \<open>
  \<^verbatim>\<open>
  if (forbiddenNodes.count(v)) continue;
  if (forbiddenEdges.count({u, v}) || forbiddenEdges.count({v, u})) continue;
  \<close>
\<close>

definition skipAlternative :: "string set \<Rightarrow> (string \<times> string) set \<Rightarrow> string \<Rightarrow> string \<Rightarrow> bool" where
  "skipAlternative forbiddenNodes forbiddenEdges u v =
     (v \<in> forbiddenNodes \<or> (u, v) \<in> forbiddenEdges \<or> (v, u) \<in> forbiddenEdges)"

definition findAlternativeRoute ::
  "Graph \<Rightarrow> string \<Rightarrow> string \<Rightarrow> string list \<Rightarrow> (error + string list) option" where
  "findAlternativeRoute g source dest mainPath =
     (case forbiddenNodesOf mainPath of
        Inl e \<Rightarrow> Some (Inl e)
      | Inr forbiddenNodes \<Rightarrow>
          (case forbiddenEdgesOf mainPath of
             Inl e \<Rightarrow> Some (Inl e)
           | Inr forbiddenEdges \<Rightarrow>
               map_option Inr
                 (reconstruct
                    (prev (dijkstraLoop (skipAlternative forbiddenNodes forbiddenEdges) g
                             (initState g source)))
                    source dest)))"

section \<open>Time aggregation (route.cpp 133-184)\<close>

text \<open>
  The inner loop of both functions stops at the first entry of \<open>adj[path[i]]\<close> whose
  neighbour is \<open>path[i+1]\<close>:
  \<^verbatim>\<open>
  for (const auto& [v, edge] : adj[path[i]]) {
      if (v == path[i+1]) { ...; found = true; break; }
  }
  if (!found) return -1;
  \<close>
\<close>

fun firstEdge :: "string \<Rightarrow> (string \<times> EdgeData) list \<Rightarrow> EdgeData option" where
  "firstEdge w [] = None"
| "firstEdge w ((v, edge) # es) = (if v = w then Some edge else firstEdge w es)"

text \<open>
  The outer loop, parameterised by the field that the function reads
  (\<open>edge.drivingTime\<close> or \<open>edge.walkingTime\<close>), with the running \<open>total\<close> (written \<open>total'\<close>):
  \<^verbatim>\<open>
  if (edge.drivingTime == -1) return -1;
  total += edge.drivingTime;
  \<close>
\<close>

fun sumTimes :: "(EdgeData \<Rightarrow> int) \<Rightarrow> Graph \<Rightarrow> string list \<Rightarrow> int \<Rightarrow> int" where
  "sumTimes sel g (a # b # rest) total' =
     (case firstEdge b (adjOf g a) of
        None \<Rightarrow> -1
      | Some edge \<Rightarrow>
          if sel edge = -1 then -1 else sumTimes sel g (b # rest) (int_add total' (sel edge)))"
| "sumTimes sel g _ total' = total'"

definition calculateDrivingTime :: "Graph \<Rightarrow> string list \<Rightarrow> int" where
  "calculateDrivingTime g path = (if length path < 2 then 0 else sumTimes drivingTime g path 0)"

definition calculateWalkingTime :: "Graph \<Rightarrow> string list \<Rightarrow> int" where
  "calculateWalkingTime g path = (if length path < 2 then 0 else sumTimes walkingTime g path 0)"

section \<open>Restricted route of the batch mode (batch.cpp 133-147)\<close>

text \<open>
  \<^verbatim>\<open>
  vector<string> path;
  if (!includeCode.empty()) {
      auto p1 = dijkstraRestricted(g, sourceCode, includeCode, avoidCodes, avoidSegmentCodes);
      auto p2 = dijkstraRestricted(g, includeCode, destCode, avoidCodes, avoidSegmentCodes);
      if (!p1.empty() && !p2.empty()) {
          p1.pop_back();
          path = p1;
          path.insert(path.end(), p2.begin(), p2.end());
      }
  } else {
      path = dijkstraRestricted(g, sourceCode, destCode, avoidCodes, avoidSegmentCodes);
  }
  \<close>
\<close>

definition joinLegs :: "string list \<Rightarrow> string list \<Rightarrow> string list" where
  "joinLegs p1 p2 = (if p1 \<noteq> [] \<and> p2 \<noteq> [] then butlast p1 @ p2 else [])"

definition restrictedRoute ::
  "Graph \<Rightarrow> string \<Rightarrow> string \<Rightarrow> string \<Rightarrow> string set \<Rightarrow> (string \<times> string) set \<Rightarrow> string list option" where
  "restrictedRoute g sourceCode destCode includeCode avoidCodes avoidSegmentCodes =
     (if includeCode \<noteq> [] then
        (case dijkstraRestricted g sourceCode includeCode avoidCodes avoidSegmentCodes of
           None \<Rightarrow> None
         | Some p1 \<Rightarrow>
             (case dijkstraRestricted g includeCode destCode avoidCodes avoidSegmentCodes of
                None \<Rightarrow> None
              | Some p2 \<Rightarrow> Some (joinLegs p1 p2)))
      else dijkstraRestricted g sourceCode destCode avoidCodes avoidSegmentCodes)"

section \<open>Eco route (route.cpp 255-316)\<close>

record EcoBest =
  bestPark :: string
  bestTotal :: int
  bestWalkTime :: int
  bestDrivePath :: "string list"
  bestWalkPath :: "string list"

text \<open>
  \<^verbatim>\<open>
  string bestPark = "";
  int bestTotal = INT_MAX;
  int bestWalkTime = -1;
  vector<string> bestDrivePath, bestWalkPath;
  \<close>
\<close>

definition initBest :: EcoBest where
  "initBest = \<lparr>bestPark = [], bestTotal = INT_MAX, bestWalkTime = -1,
                bestDrivePath = [], bestWalkPath = []\<rparr>"

text \<open>
  The test and the assignments at the end of the body of the loop over the parking
  candidates (route.cpp 297-306).
\<close>

definition ecoUpdate :: "EcoBest \<Rightarrow> string \<Rightarrow> string list \<Rightarrow> string list \<Rightarrow> int \<Rightarrow> int \<Rightarrow> EcoBest" where
  "ecoUpdate b park drivePath walkPath driveTime walkTime =
     (let total = int_add driveTime walkTime in
      if total < bestTotal b \<or> (total = bestTotal b \<and> walkTime > bestWalkTime b) then
        \<lparr>bestPark = park, bestTotal = total, bestWalkTime = walkTime,
         bestDrivePath = drivePath, bestWalkPath = walkPath\<rparr>
      else b)"

text \<open>
  One round of \<^verbatim>\<open>for (const auto& park : parkingCandidates)\<close> (route.cpp 284-307);
  \<open>None\<close> when one of the two searches does not return.
\<close>

definition ecoStep ::
  "Graph \<Rightarrow> string \<Rightarrow> string \<Rightarrow> int \<Rightarrow> string set \<Rightarrow> (string \<times> string) set
   \<Rightarrow> EcoBest \<Rightarrow> string \<Rightarrow> EcoBest option" where
  "ecoStep g source dest maxWalkTime avoidNodes avoidSegments b park =
     (if park \<in> avoidNodes then Some b
      else
        (case dijkstraRestricted g source park avoidNodes avoidSegments of
           None \<Rightarrow> None
         | Some drivePath \<Rightarrow>
             (case dijkstraRestricted g park dest avoidNodes avoidSegments of
                None \<Rightarrow> None
              | Some walkPath \<Rightarrow>
                  if drivePath = [] \<or> walkPath = [] then Some b
                  else
                    let driveTime = calculateDrivingTime g drivePath;
                        walkTime = calculateWalkingTime g walkPath
                    in if walkTime > maxWalkTime then Some b
                       else Some (ecoUpdate b park drivePath walkPath driveTime walkTime))))"

fun ecoLoop ::
  "Graph \<Rightarrow> string \<Rightarrow> string \<Rightarrow> int \<Rightarrow> string set \<Rightarrow> (string \<times> string) set
   \<Rightarrow> EcoBest \<Rightarrow> string list \<Rightarrow> EcoBest option" where
  "ecoLoop g source dest maxWalkTime avoidNodes avoidSegments b [] = Some b"
| "ecoLoop g source dest maxWalkTime avoidNodes avoidSegments b (park # rest) =
     (case ecoStep g source dest maxWalkTime avoidNodes avoidSegments b park of
        None \<Rightarrow> None
      | Some b' \<Rightarrow> ecoLoop g source dest maxWalkTime avoidNodes avoidSegments b' rest)"

text \<open>
  The global \<open>locations\<close> is a parameter. The result is the returned tuple together
  with the text stored in \<open>message\<close>.
\<close>

definition findEcoRoute ::
  "Graph \<Rightarrow> Location list \<Rightarrow> string \<Rightarrow> string \<Rightarrow> int \<Rightarrow> string set \<Rightarrow> (string \<times> string) set
   \<Rightarrow> ((string list \<times> string \<times> string list) \<times> string) option" where
  "findEcoRoute g locations source dest maxWalkTime avoidNodes avoidSegments =
     (let parkingCandidates = map code (filter hasParking locations) in
      if parkingCandidates = [] then Some (([], [], []), ''No parking nodes available.'')
      else
        (case ecoLoop g source dest maxWalkTime avoidNodes avoidSegments initBest parkingCandidates of
           None \<Rightarrow> None
         | Some b \<Rightarrow>
             if bestDrivePath b = [] \<or> bestWalkPath b = []
             then Some (([], [], []), ''No viable eco route found.'')
             else Some ((bestDrivePath b, bestPark b, bestWalkPath b), ''Eco route found.'')))"

section \<open>Invariants of the search loop\<close>

text \<open>
  Two proof rules: a property that every round of the inner \<open>for\<close> keeps holds after
  it, and a property that both kinds of round of the \<open>while\<close> keep holds when the loop
  ends.
\<close>

lemma relaxAll_invariant:
  assumes "P s"
    and "\<And>s ve. P s \<Longrightarrow> ve \<in> set (adjOf g u) \<Longrightarrow> P (relax skip u s ve)"
  shows "P (relaxAll skip g u s)"
proof -
  have "P s \<Longrightarrow> set es \<subseteq> set (adjOf g u) \<Longrightarrow> P (foldl (relax skip u) s es)" for es s
  proof (induction es arbitrary: s)
    case Nil
    then show ?case by simp
  next
    case (Cons e es)
    from Cons.prems have "P (relax skip u s e)" by (intro assms(2)) simp_all
    with Cons.IH [of "relax skip u s e"] Cons.prems(2) show ?case by simp
  qed
  with assms(1) show ?thesis unfolding relaxAll_def by blast
qed

lemma dijkstraLoop_invariant:
  assumes "P s"
    and "\<And>s x xs. P s \<Longrightarrow> pq s = x # xs \<Longrightarrow> snd (pq_top x xs) \<in> visited s \<Longrightarrow>
           P (s\<lparr>pq := remove1 (pq_top x xs) (x # xs)\<rparr>)"
    and "\<And>s x xs. P s \<Longrightarrow> pq s = x # xs \<Longrightarrow> snd (pq_top x xs) \<notin> visited s \<Longrightarrow>
           P (relaxAll skip g (snd (pq_top x xs))
                (s\<lparr>pq := remove1 (pq_top x xs) (x # xs),
                   visited := insert (snd (pq_top x xs)) (visited s)\<rparr>))"
  shows "P (dijkstraLoop skip g s)"
  using assms
proof (induction skip g s rule: dijkstraLoop.induct)
  case (1 skip g s)
  note pop = "1.prems"(2) and visit = "1.prems"(3)
  show ?case
  proof (cases "pq s")
    case Nil
    with "1.prems"(1) show ?thesis by (simp add: dijkstraLoop.simps)
  next
    case (Cons x xs)
    define top where "top = pq_top x xs"
    define s1 where "s1 = s\<lparr>pq := remove1 top (x # xs)\<rparr>"
    show ?thesis
    proof (cases "snd top \<in> visited s1")
      case True
      then have "snd (pq_top x xs) \<in> visited s" by (simp add: s1_def top_def)
      with "1.prems"(1) Cons have "P s1" unfolding s1_def top_def by (rule pop)
      then have "P (dijkstraLoop skip g s1)"
        using pop visit by (rule "1.IH"(1) [OF Cons top_def refl s1_def True])
      moreover have "dijkstraLoop skip g s = dijkstraLoop skip g s1"
        using Cons True
        by (subst dijkstraLoop.simps) (simp add: Let_def s1_def top_def del: remove1.simps)
      ultimately show ?thesis by simp
    next
      case False
      define s2 where "s2 = relaxAll skip g (snd top) (s1\<lparr>visited := insert (snd top) (visited s1)\<rparr>)"
      from False have "snd (pq_top x xs) \<notin> visited s" by (simp add: s1_def top_def)
      with "1.prems"(1) Cons
      have "P (relaxAll skip g (snd (pq_top x xs))
                (s\<lparr>pq := remove1 (pq_top x xs) (x # xs),
                   visited := insert (snd (pq_top x xs)) (visited s)\<rparr>))"
        by (rule visit)
      then have "P s2" by (simp add: s2_def s1_def top_def del: remove1.simps)
      then have "P (dijkstraLoop skip g s2)"
        unfolding s2_def using pop visit by (rule "1.IH"(2) [OF Cons top_def refl s1_def False])
      moreover have "dijkstraLoop skip g s = dijkstraLoop skip g s2"
        using Cons False
        by (subst dijkstraLoop.simps) (simp add: Let_def s2_def s1_def top_def del: remove1.simps)
      ultimately show ?thesis by simp
    qed
  qed
qed

subsection \<open>What every entry of \<open>prev\<close> records\<close>

text \<open>
  Whatever the weights are: an entry \<open>prev[v] = u\<close> was written while \<open>u\<close> was being
  expanded, over an edge from \<open>u\<close> to \<open>v\<close> that passed the \<open>continue\<close> lines; and every
  code that was ever pushed, other than the source, has an entry.
\<close>

definition linkInv :: "(string \<Rightarrow> string \<Rightarrow> bool) \<Rightarrow> Graph \<Rightarrow> string \<Rightarrow> DState \<Rightarrow> bool" where
  "linkInv skip g source s \<longleftrightarrow>
     (\<forall>v u. prev s v = Some u \<longrightarrow>
        u \<in> visited s \<and> \<not> skip u v \<and>
        (\<exists>edge. (v, edge) \<in> set (adjOf g u) \<and> drivingTime edge \<noteq> -1)) \<and>
     (\<forall>y. y \<in> visited s \<or> y \<in> snd ` set (pq s) \<longrightarrow> y = source \<or> prev s y \<noteq> None)"

lemma linkInv_init: "linkInv skip g source (initState g source)"
  by (simp add: linkInv_def initState_def)

lemma linkInv_relax:
  assumes "linkInv skip g source s" and "u \<in> visited s" and "ve \<in> set (adjOf g u)"
  shows "linkInv skip g source (relax skip u s ve)"
proof (cases "relax skip u s ve = s")
  case True
  with assms(1) show ?thesis by simp
next
  case False
  obtain v edge where ve: "ve = (v, edge)" by (cases ve)
  from False have c: "drivingTime edge \<noteq> -1" "\<not> skip u v"
    and r: "relax skip u s ve = s\<lparr>dist := (dist s)(v := int_add (dist s u) (drivingTime edge)),
          prev := (prev s)(v \<mapsto> u),
          pq := pq s @ [(int_add (dist s u) (drivingTime edge), v)]\<rparr>"
    by (auto simp: relax_def ve Let_def split: if_splits)
  from assms(3) c have e: "\<exists>edge. (v, edge) \<in> set (adjOf g u) \<and> drivingTime edge \<noteq> -1"
    unfolding ve by blast
  show ?thesis
    unfolding r linkInv_def
  proof (intro conjI allI impI)
    fix y
    assume "y \<in> visited (s\<lparr>dist := (dist s)(v := int_add (dist s u) (drivingTime edge)),
          prev := (prev s)(v \<mapsto> u),
          pq := pq s @ [(int_add (dist s u) (drivingTime edge), v)]\<rparr>) \<or>
        y \<in> snd ` set (pq (s\<lparr>dist := (dist s)(v := int_add (dist s u) (drivingTime edge)),
          prev := (prev s)(v \<mapsto> u),
          pq := pq s @ [(int_add (dist s u) (drivingTime edge), v)]\<rparr>))"
    then have "y = v \<or> y \<in> visited s \<or> y \<in> snd ` set (pq s)" by auto
    with assms(1) show "y = source \<or> prev (s\<lparr>dist := (dist s)(v := int_add (dist s u) (drivingTime edge)),
          prev := (prev s)(v \<mapsto> u),
          pq := pq s @ [(int_add (dist s u) (drivingTime edge), v)]\<rparr>) y \<noteq> None"
      unfolding linkInv_def by auto
  qed (use assms(1,2) c e in \<open>auto simp: linkInv_def split: if_splits\<close>)
qed

lemma linkInv_shrink:
  assumes "linkInv skip g source s" and "prev s' = prev s" and "visited s \<subseteq> visited s'"
    and "visited s' \<union> snd ` set (pq s') \<subseteq> visited s \<union> snd ` set (pq s)"
  shows "linkInv skip g source s'"
proof -
  have "y = source \<or> prev s' y \<noteq> None" if "y \<in> visited s' \<or> y \<in> snd ` set (pq s')" for y
  proof -
    from that assms(4) have "y \<in> visited s \<or> y \<in> snd ` set (pq s)" by blast
    with assms(1) have "y = source \<or> prev s y \<noteq> None" unfolding linkInv_def by blast
    then show ?thesis by (simp add: assms(2))
  qed
  moreover have "u \<in> visited s' \<and> \<not> skip u v \<and>
        (\<exists>edge. (v, edge) \<in> set (adjOf g u) \<and> drivingTime edge \<noteq> -1)" if "prev s' v = Some u" for v u
  proof -
    from that have "prev s v = Some u" by (simp add: assms(2))
    with assms(1) have "u \<in> visited s \<and> \<not> skip u v \<and>
        (\<exists>edge. (v, edge) \<in> set (adjOf g u) \<and> drivingTime edge \<noteq> -1)"
      unfolding linkInv_def by blast
    with assms(3) show ?thesis by blast
  qed
  ultimately show ?thesis unfolding linkInv_def by blast
qed

lemma pq_codes_remove1: "snd ` set (remove1 t q) \<subseteq> snd ` set q"
  using set_remove1_subset [of t q] by blast

lemma linkInv_pop_skip:
  assumes inv: "linkInv skip g source s" and q: "pq s = x # xs"
  shows "linkInv skip g source (s\<lparr>pq := remove1 (pq_top x xs) (x # xs)\<rparr>)"
proof -
  have "snd ` set (remove1 (pq_top x xs) (x # xs)) \<subseteq> snd ` set (pq s)"
    unfolding q by (rule pq_codes_remove1)
  then show ?thesis
    by (intro linkInv_shrink [OF inv]) (auto simp del: remove1.simps)
qed

lemma linkInv_pop_visit:
  assumes inv: "linkInv skip g source s" and q: "pq s = x # xs"
  shows "linkInv skip g source
           (s\<lparr>pq := remove1 (pq_top x xs) (x # xs),
              visited := insert (snd (pq_top x xs)) (visited s)\<rparr>)"
proof -
  have sub: "snd ` set (remove1 (pq_top x xs) (x # xs)) \<subseteq> snd ` set (pq s)"
    unfolding q by (rule pq_codes_remove1)
  have "snd (pq_top x xs) \<in> snd ` set (pq s)"
    unfolding q using pq_top_in [of x xs] by (rule imageI)
  with sub show ?thesis
    by (intro linkInv_shrink [OF inv]) (auto simp del: remove1.simps)
qed

lemma linkInv_loop:
  "linkInv skip g source (dijkstraLoop skip g (initState g source))"
proof (rule dijkstraLoop_invariant [where P = "linkInv skip g source"])
  show "linkInv skip g source (initState g source)" by (rule linkInv_init)
next
  fix s x xs
  assume "linkInv skip g source s" and "pq s = x # xs"
  then show "linkInv skip g source (s\<lparr>pq := remove1 (pq_top x xs) (x # xs)\<rparr>)"
    by (rule linkInv_pop_skip)
next
  fix s x xs
  assume inv: "linkInv skip g source s" and q: "pq s = x # xs"
  define u where "u = snd (pq_top x xs)"
  define s1 where "s1 = s\<lparr>pq := remove1 (pq_top x xs) (x # xs), visited := insert u (visited s)\<rparr>"
  from inv q have "linkInv skip g source s1" unfolding s1_def u_def by (rule linkInv_pop_visit)
  moreover have "u \<in> visited s1" by (simp add: s1_def)
  ultimately have "linkInv skip g source s1 \<and> u \<in> visited s1" ..
  then have "linkInv skip g source (relaxAll skip g u s1) \<and> u \<in> visited (relaxAll skip g u s1)"
    by (rule relaxAll_invariant) (simp add: linkInv_relax)
  then show "linkInv skip g source (relaxAll skip g (snd (pq_top x xs))
                (s\<lparr>pq := remove1 (pq_top x xs) (x # xs),
                   visited := insert (snd (pq_top x xs)) (visited s)\<rparr>))"
    unfolding s1_def u_def by simp
qed

subsection \<open>The walk from the destination back to the source\<close>

text \<open>
  \<open>walkFrom pr source at ns\<close>: the loop started at \<open>at\<close> leaves after pushing exactly
  the codes \<open>ns\<close>.
\<close>

inductive walkFrom :: "(string \<rightharpoonup> string) \<Rightarrow> string \<Rightarrow> string \<Rightarrow> string list \<Rightarrow> bool"
  for pr :: "string \<rightharpoonup> string" and source :: string where
  stop: "walkFrom pr source source []"
| hop: "at \<noteq> source \<Longrightarrow> walkFrom pr source (prevAt pr at) ns \<Longrightarrow> walkFrom pr source at (at # ns)"

lemma walkBack_walkFrom:
  "walkFrom pr source at ns \<Longrightarrow> walkBack pr source at path = Some (path @ ns)"
proof (induction arbitrary: path rule: walkFrom.induct)
  case stop
  show ?case by (subst walkBack.simps) simp
next
  case (hop at ns)
  from hop.hyps(1) hop.IH [of "path @ [at]"] show ?case
    by (subst walkBack.simps) simp
qed

lemma walkBack_SomeD:
  "walkBack pr source at path = Some r \<Longrightarrow> \<exists>ns. walkFrom pr source at ns \<and> r = path @ ns"
proof (induction rule: walkBack.raw_induct [rotated 1, consumes 1])
  case (1 walkBack' pr source at path r)
  show ?case
  proof (cases "at = source")
    case True
    with "1"(2) show ?thesis by (auto intro: walkFrom.stop)
  next
    case False
    with "1"(2) have "walkBack' pr source (prevAt pr at) (path @ [at]) = Some r" by simp
    then have "\<exists>ns. walkFrom pr source (prevAt pr at) ns \<and> r = (path @ [at]) @ ns"
      by (rule "1"(1))
    then obtain ns where
      "walkFrom pr source (prevAt pr at) ns" "r = (path @ [at]) @ ns" by blast
    with False show ?thesis by (auto intro: walkFrom.hop)
  qed
qed

lemma walkFrom_functional:
  "walkFrom pr source at ns \<Longrightarrow> walkFrom pr source at ms \<Longrightarrow> ns = ms"
proof (induction arbitrary: ms rule: walkFrom.induct)
  case stop
  then show ?case by (auto elim: walkFrom.cases)
next
  case (hop at ns)
  from hop.prems hop.hyps(1) obtain ms' where "ms = at # ms'" "walkFrom pr source (prevAt pr at) ms'"
    by (auto elim: walkFrom.cases)
  with hop.IH show ?case by simp
qed

lemma walkFrom_suffix:
  "walkFrom pr source at ns \<Longrightarrow> y \<in> set ns \<Longrightarrow>
   \<exists>ms. walkFrom pr source y ms \<and> length ms \<le> length ns"
proof (induction rule: walkFrom.induct)
  case stop
  then show ?case by simp
next
  case (hop at ns)
  show ?case
  proof (cases "y = at")
    case True
    with hop.hyps show ?thesis by (auto intro: walkFrom.hop)
  next
    case False
    with hop.prems hop.IH show ?thesis by fastforce
  qed
qed

lemma walkFrom_distinct: "walkFrom pr source at ns \<Longrightarrow> distinct ns \<and> source \<notin> set ns"
proof (induction rule: walkFrom.induct)
  case stop
  show ?case by simp
next
  case (hop at ns)
  have "at \<notin> set ns"
  proof
    assume "at \<in> set ns"
    from walkFrom_suffix [OF hop.hyps(2) this] obtain ms where
      ms: "walkFrom pr source at ms" "length ms \<le> length ns" by blast
    have "walkFrom pr source at (at # ns)" using hop.hyps by (rule walkFrom.hop)
    with ms(1) have "ms = at # ns" by (rule walkFrom_functional)
    with ms(2) show False by simp
  qed
  with hop show ?case by auto
qed

text \<open>
  The returned vector read from its front: it starts at the source, and each further
  element has the element before it as its \<open>prev\<close> entry.
\<close>

inductive trail :: "(string \<rightharpoonup> string) \<Rightarrow> string \<Rightarrow> string list \<Rightarrow> bool"
  for pr :: "string \<rightharpoonup> string" and source :: string where
  start: "trail pr source [source]"
| extend: "trail pr source p \<Longrightarrow> pr v = Some (last p) \<Longrightarrow> v \<noteq> source \<Longrightarrow> trail pr source (p @ [v])"

lemma trail_nonempty: "trail pr source p \<Longrightarrow> p \<noteq> []"
  by (induction rule: trail.induct) simp_all

lemma trail_hd: "trail pr source p \<Longrightarrow> hd p = source"
  by (induction rule: trail.induct) (simp_all add: trail_nonempty)

lemma trail_links:
  "trail pr source p \<Longrightarrow> Suc i < length p \<Longrightarrow> pr (p ! Suc i) = Some (p ! i)"
proof (induction arbitrary: i rule: trail.induct)
  case start
  then show ?case by simp
next
  case (extend p v)
  show ?case
  proof (cases "Suc i < length p")
    case True
    with extend.IH [of i] show ?thesis by (simp add: nth_append)
  next
    case False
    with extend.prems have i: "Suc i = length p" by simp
    then have "p \<noteq> []" by auto
    then have "last p = p ! (length p - 1)" by (rule last_conv_nth)
    moreover from i have "length p - 1 = i" by simp
    ultimately have "last p = p ! i" by simp
    with extend.hyps(2) i show ?thesis by (simp add: nth_append)
  qed
qed

lemma walkFrom_trail:
  assumes closed: "\<And>v u. pr v = Some u \<Longrightarrow> u = source \<or> pr u \<noteq> None"
  shows "walkFrom pr source at ns \<Longrightarrow> at = source \<or> pr at \<noteq> None \<Longrightarrow>
         trail pr source (source # rev ns) \<and> last (source # rev ns) = at"
proof (induction rule: walkFrom.induct)
  case stop
  show ?case by (simp add: trail.start)
next
  case (hop at ns)
  from hop.hyps(1) hop.prems obtain u where u: "pr at = Some u" by auto
  then have pa: "prevAt pr at = u" by (simp add: prevAt_def)
  from closed [OF u] have "prevAt pr at = source \<or> pr (prevAt pr at) \<noteq> None" by (simp add: pa)
  with hop.IH have t: "trail pr source (source # rev ns)" and l: "last (source # rev ns) = u"
    by (simp_all add: pa)
  from t have "trail pr source ((source # rev ns) @ [at])"
  proof (rule trail.extend)
    show "pr at = Some (last (source # rev ns))" using u l by simp
    show "at \<noteq> source" by (rule hop.hyps(1))
  qed
  then show ?case by simp
qed

lemma reconstruct_SomeD:
  assumes "reconstruct pr source dest = Some p" and "p \<noteq> []"
  shows "pr dest \<noteq> None \<and> (\<exists>ns. walkFrom pr source dest ns \<and> p = source # rev ns)"
proof -
  from assms have d: "pr dest \<noteq> None"
    by (auto simp: reconstruct_def split: if_splits)
  with assms(1) obtain r where r: "walkBack pr source dest [] = Some r" "p = rev (r @ [source])"
    by (auto simp: reconstruct_def split: if_splits)
  from walkBack_SomeD [OF r(1)] obtain ns where "walkFrom pr source dest ns" "r = ns" by auto
  with r(2) d show ?thesis by auto
qed

text \<open>The \<open>prev\<close> map at the end of the \<open>while\<close> loop.\<close>

definition searchPrev :: "(string \<Rightarrow> string \<Rightarrow> bool) \<Rightarrow> Graph \<Rightarrow> string \<Rightarrow> string \<rightharpoonup> string" where
  "searchPrev skip g source = prev (dijkstraLoop skip g (initState g source))"

lemma search_path_facts:
  assumes "reconstruct (searchPrev skip g source) source dest = Some p" and "p \<noteq> []"
  shows "hd p = source" and "last p = dest" and "distinct p"
    and "\<And>i. Suc i < length p \<Longrightarrow>
           \<not> skip (p ! i) (p ! Suc i) \<and>
           (\<exists>edge. (p ! Suc i, edge) \<in> set (adjOf g (p ! i)) \<and> drivingTime edge \<noteq> -1)"
proof -
  define pr where "pr = searchPrev skip g source"
  have inv: "linkInv skip g source (dijkstraLoop skip g (initState g source))"
    by (rule linkInv_loop)
  have link: "\<not> skip u v \<and> (\<exists>edge. (v, edge) \<in> set (adjOf g u) \<and> drivingTime edge \<noteq> -1)"
    if "pr v = Some u" for v u
    using inv that unfolding linkInv_def pr_def searchPrev_def by blast
  have closed: "u = source \<or> pr u \<noteq> None" if "pr v = Some u" for v u
    using inv that unfolding linkInv_def pr_def searchPrev_def by blast
  from reconstruct_SomeD [OF assms [folded pr_def]] obtain ns where
    d: "pr dest \<noteq> None" and w: "walkFrom pr source dest ns" and p: "p = source # rev ns"
    by blast
  from d have "dest = source \<or> pr dest \<noteq> None" by simp
  with closed w have "trail pr source (source # rev ns) \<and> last (source # rev ns) = dest"
    by (rule walkFrom_trail)
  then have t: "trail pr source p" and l: "last p = dest" by (simp_all only: p)
  show "hd p = source" by (simp add: p)
  show "last p = dest" by (rule l)
  from walkFrom_distinct [OF w] show "distinct p" by (simp add: p)
  fix i assume "Suc i < length p"
  with t have "pr (p ! Suc i) = Some (p ! i)" by (rule trail_links)
  then show "\<not> skip (p ! i) (p ! Suc i) \<and>
           (\<exists>edge. (p ! Suc i, edge) \<in> set (adjOf g (p ! i)) \<and> drivingTime edge \<noteq> -1)"
    by (rule link)
qed

lemma in_set_tl_nth: "x \<in> set (tl p) \<Longrightarrow> \<exists>i. Suc i < length p \<and> x = p ! Suc i"
proof (cases p)
  case Nil
  assume "x \<in> set (tl p)"
  with Nil show ?thesis by simp
next
  case (Cons a q)
  assume "x \<in> set (tl p)"
  with Cons obtain i where "i < length q" "x = q ! i" by (auto simp: in_set_conv_nth)
  with Cons show ?thesis by auto
qed

section \<open>Graphs whose times are durations\<close>

text \<open>
  The data model of the specification: each time of an edge is a non-negative duration
  or the sentinel \<open>-1\<close>. (parser.cpp stores whatever number the file holds.)
\<close>

definition validTimes :: "Graph \<Rightarrow> bool" where
  "validTimes g \<longleftrightarrow>
     (\<forall>(k, es) \<in> set g. \<forall>(v, edge) \<in> set es.
        (drivingTime edge = -1 \<or> 0 \<le> drivingTime edge) \<and>
        (walkingTime edge = -1 \<or> 0 \<le> walkingTime edge))"

lemma validTimes_adjOf:
  assumes "validTimes g" and "(v, edge) \<in> set (adjOf g u)"
  shows "drivingTime edge = -1 \<or> 0 \<le> drivingTime edge"
    and "walkingTime edge = -1 \<or> 0 \<le> walkingTime edge"
proof -
  from assms(2) obtain es where "map_of g u = Some es" and in_es: "(v, edge) \<in> set es"
    by (cases "map_of g u") (simp_all add: adjOf_def)
  from map_of_SomeD [OF this(1)] have "(u, es) \<in> set g" .
  with assms(1) have "\<forall>(v, edge) \<in> set es.
        (drivingTime edge = -1 \<or> 0 \<le> drivingTime edge) \<and>
        (walkingTime edge = -1 \<or> 0 \<le> walkingTime edge)"
    unfolding validTimes_def by fast
  with in_es show "drivingTime edge = -1 \<or> 0 \<le> drivingTime edge"
    and "walkingTime edge = -1 \<or> 0 \<le> walkingTime edge" by fast+
qed

text \<open>
  \<open>timesFit g\<close>: the times are durations, and the driving times of the entries of all
  neighbour vectors (\<open>addEdge\<close> stores an edge at both of its ends; an unavailable time
  counts as 0) together do not exceed \<open>INT_MAX\<close>. Then no distance that a search computes
  leaves the range of \<open>int\<close>.
\<close>

definition drivingSum :: "(string \<times> EdgeData) list \<Rightarrow> int" where
  "drivingSum es = sum_list (map (\<lambda>ve. max 0 (drivingTime (snd ve))) es)"

definition timesFit :: "Graph \<Rightarrow> bool" where
  "timesFit g \<longleftrightarrow> validTimes g \<and> sum_list (map (\<lambda>kes. drivingSum (snd kes)) g) \<le> INT_MAX"

lemma wrapInt_id: "INT_MIN \<le> x \<Longrightarrow> x \<le> INT_MAX \<Longrightarrow> wrapInt x = x"
  by (simp add: wrapInt_def INT_MIN_def INT_MAX_def)

lemma drivingSum_nonneg: "0 \<le> drivingSum es"
  unfolding drivingSum_def by (rule sum_list_nonneg) auto

lemma drivingSum_member: "(v, edge) \<in> set es \<Longrightarrow> drivingTime edge \<le> drivingSum es"
proof (induction es)
  case Nil
  then show ?case by simp
next
  case (Cons a es)
  show ?case
  proof (cases "a = (v, edge)")
    case True
    have "0 \<le> drivingSum es" by (rule drivingSum_nonneg)
    with True show ?thesis by (simp add: drivingSum_def)
  next
    case False
    with Cons have "drivingTime edge \<le> drivingSum es" by simp
    then show ?thesis by (simp add: drivingSum_def)
  qed
qed

text \<open>The driving times stored at the codes of a finite set, together.\<close>

definition outSum :: "Graph \<Rightarrow> string set \<Rightarrow> int" where
  "outSum g V = (\<Sum>y \<in> V. drivingSum (adjOf g y))"

lemma outSum_nonneg: "0 \<le> outSum g V"
  unfolding outSum_def by (rule sum_nonneg) (rule drivingSum_nonneg)

lemma outSum_mono: "finite W \<Longrightarrow> V \<subseteq> W \<Longrightarrow> outSum g V \<le> outSum g W"
  unfolding outSum_def by (rule sum_mono2) (simp_all add: drivingSum_nonneg)

lemma outSum_split: "finite V \<Longrightarrow> u \<in> V \<Longrightarrow> outSum g V = drivingSum (adjOf g u) + outSum g (V - {u})"
  unfolding outSum_def by (rule sum.remove)

lemma outSum_le_total:
  "finite V \<Longrightarrow> outSum g V \<le> sum_list (map (\<lambda>kes. drivingSum (snd kes)) g)"
proof (induction g arbitrary: V)
  case Nil
  show ?case by (simp add: outSum_def adjOf_def drivingSum_def)
next
  case (Cons a g)
  obtain k es where a: "a = (k, es)" by (cases a)
  have other: "adjOf (a # g) y = adjOf g y" if "y \<noteq> k" for y
    using that by (simp add: adjOf_def a)
  have here: "adjOf (a # g) k = es" by (simp add: adjOf_def a)
  have rest: "outSum (a # g) (V - {k}) = outSum g (V - {k})"
    unfolding outSum_def by (rule sum.cong) (simp_all add: other)
  from Cons.prems have fin: "finite (V - {k})" by simp
  have le: "outSum g (V - {k}) \<le> sum_list (map (\<lambda>kes. drivingSum (snd kes)) g)"
    using fin by (rule Cons.IH)
  show ?case
  proof (cases "k \<in> V")
    case True
    from outSum_split [OF Cons.prems True, of "a # g"]
    have "outSum (a # g) V = drivingSum es + outSum g (V - {k})" by (simp add: here rest)
    with le show ?thesis by (simp add: a)
  next
    case False
    then have "V - {k} = V" by simp
    with rest le have "outSum (a # g) V \<le> sum_list (map (\<lambda>kes. drivingSum (snd kes)) g)" by simp
    moreover have "0 \<le> drivingSum es" by (rule drivingSum_nonneg)
    ultimately show ?thesis by (simp add: a)
  qed
qed

text \<open>
  The distance of a visited code is at most the driving times stored at the codes
  visited besides it, and every distance that was written is at most the driving times
  stored at all visited codes.
\<close>

definition boundInv :: "Graph \<Rightarrow> DState \<Rightarrow> bool" where
  "boundInv g s \<longleftrightarrow>
     finite (visited s) \<and>
     (\<forall>x \<in> visited s. dist s x \<le> outSum g (visited s - {x})) \<and>
     (\<forall>x. prev s x \<noteq> None \<longrightarrow> dist s x \<le> outSum g (visited s))"

lemma boundInv_init: "boundInv g (initState g source)"
  by (simp add: boundInv_def initState_def)

lemma boundInv_pop_skip:
  "boundInv g s \<Longrightarrow> boundInv g (s\<lparr>pq := q\<rparr>)"
  by (simp add: boundInv_def)

lemma boundInv_pop_visit:
  assumes b: "boundInv g s" and u: "u \<notin> visited s"
    and du: "dist s u \<le> outSum g (visited s)"
  shows "boundInv g (s\<lparr>pq := q, visited := insert u (visited s)\<rparr>)"
proof -
  from b have fin: "finite (visited s)" by (simp add: boundInv_def)
  have "dist s x \<le> outSum g (insert u (visited s) - {x})" if "x \<in> insert u (visited s)" for x
  proof (cases "x = u")
    case True
    with u have "insert u (visited s) - {x} = visited s" by auto
    with du True show ?thesis by simp
  next
    case False
    with that have xv: "x \<in> visited s" by simp
    with b have "dist s x \<le> outSum g (visited s - {x})" by (simp add: boundInv_def)
    also have "\<dots> \<le> outSum g (insert u (visited s) - {x})"
      using fin by (intro outSum_mono) auto
    finally show ?thesis .
  qed
  moreover have "dist s x \<le> outSum g (insert u (visited s))" if "prev s x \<noteq> None" for x
  proof -
    from b that have "dist s x \<le> outSum g (visited s)" by (simp add: boundInv_def)
    also have "\<dots> \<le> outSum g (insert u (visited s))"
      using fin by (intro outSum_mono) auto
    finally show ?thesis .
  qed
  ultimately show ?thesis using fin by (simp add: boundInv_def)
qed

text \<open>
  \<open>chainTo pr source v\<close>: following the entries of \<open>pr\<close> from \<open>v\<close> reaches the source.
\<close>

inductive chainTo :: "(string \<rightharpoonup> string) \<Rightarrow> string \<Rightarrow> string \<Rightarrow> bool"
  for pr :: "string \<rightharpoonup> string" and source :: string where
  here: "chainTo pr source source"
| link: "v \<noteq> source \<Longrightarrow> pr v = Some u \<Longrightarrow> chainTo pr source u \<Longrightarrow> chainTo pr source v"

lemma chainTo_walkFrom: "chainTo pr source v \<Longrightarrow> \<exists>ns. walkFrom pr source v ns"
proof (induction rule: chainTo.induct)
  case here
  show ?case by (auto intro: walkFrom.stop)
next
  case (link v u)
  then obtain ns where "walkFrom pr source (prevAt pr v) ns" by (auto simp: prevAt_def)
  with link.hyps(1) have "walkFrom pr source v (v # ns)" by (rule walkFrom.hop)
  then show ?case ..
qed

lemma chainTo_avoid:
  assumes "\<And>a b. pr a = Some b \<Longrightarrow> b \<in> V" and "v \<notin> V"
  shows "chainTo pr source x \<Longrightarrow> x \<in> V \<Longrightarrow> chainTo (pr(v \<mapsto> u)) source x"
proof (induction rule: chainTo.induct)
  case here
  show ?case by (rule chainTo.here)
next
  case (link x y)
  from link.hyps(2) have "y \<in> V" by (rule assms(1))
  then have c: "chainTo (pr(v \<mapsto> u)) source y" by (rule link.IH)
  from link.prems assms(2) have "x \<noteq> v" by auto
  with link.hyps(2) have "(pr(v \<mapsto> u)) x = Some y" by simp
  with link.hyps(1) show ?case using c by (rule chainTo.link)
qed

lemma chainTo_update:
  assumes "chainTo (pr(v \<mapsto> u)) source v"
  shows "chainTo pr source z \<Longrightarrow> chainTo (pr(v \<mapsto> u)) source z"
proof (induction rule: chainTo.induct)
  case here
  show ?case by (rule chainTo.here)
next
  case (link z y)
  show ?case
  proof (cases "z = v")
    case True
    from assms show ?thesis unfolding True .
  next
    case False
    with link.hyps(2) have "(pr(v \<mapsto> u)) z = Some y" by simp
    with link.hyps(1) show ?thesis using link.IH by (rule chainTo.link)
  qed
qed

text \<open>
  With durations that fit the loop is Dijkstra's algorithm: no distance is negative,
  no entry of the queue lies below the distance of a visited code, every unvisited
  code in the queue has an entry with its current distance, and every \<open>prev\<close> entry
  starts a chain that ends at the source.
\<close>

definition settleInv :: "string \<Rightarrow> DState \<Rightarrow> bool" where
  "settleInv source s \<longleftrightarrow>
     (\<forall>x. 0 \<le> dist s x) \<and> dist s source = 0 \<and> prev s source = None \<and>
     (\<forall>(d, y) \<in> set (pq s).
        dist s y \<le> d \<and> (\<forall>x \<in> visited s. dist s x \<le> d) \<and>
        (y \<notin> visited s \<longrightarrow> (dist s y, y) \<in> set (pq s))) \<and>
     (\<forall>v. prev s v \<noteq> None \<longrightarrow> chainTo (prev s) source v)"

text \<open>While \<open>u\<close> is expanded no visited code has a larger distance than \<open>u\<close>.\<close>

definition expanding :: "string \<Rightarrow> DState \<Rightarrow> bool" where
  "expanding u s \<longleftrightarrow> u \<in> visited s \<and> (\<forall>x \<in> visited s. dist s x \<le> dist s u)"

lemma settleInv_init: "settleInv source (initState g source)"
proof -
  have "0 \<le> dist (initState g source) x" for x
    by (cases "map_of g x") (simp_all add: initState_def INT_MAX_def)
  then show ?thesis by (simp add: settleInv_def) (simp add: initState_def)
qed

lemma pq_top_fst_le: "y \<in> set (x # xs) \<Longrightarrow> fst (pq_top x xs) \<le> fst y"
proof -
  assume "y \<in> set (x # xs)"
  then have "pq_top x xs \<le> y" by (rule pq_top_le)
  then show ?thesis by (auto simp: less_eq_prod_def)
qed

lemma settleInv_pq:
  assumes "settleInv source s" and "(d, y) \<in> set (pq s)"
  shows "dist s y \<le> d" and "\<And>x. x \<in> visited s \<Longrightarrow> dist s x \<le> d"
    and "y \<notin> visited s \<Longrightarrow> (dist s y, y) \<in> set (pq s)"
proof -
  from assms(1) have "\<forall>(d, y) \<in> set (pq s).
        dist s y \<le> d \<and> (\<forall>x \<in> visited s. dist s x \<le> d) \<and>
        (y \<notin> visited s \<longrightarrow> (dist s y, y) \<in> set (pq s))"
    by (simp add: settleInv_def)
  with assms(2) have *: "dist s y \<le> d \<and> (\<forall>x \<in> visited s. dist s x \<le> d) \<and>
        (y \<notin> visited s \<longrightarrow> (dist s y, y) \<in> set (pq s))" by fast
  from * show "dist s y \<le> d" by simp
  from * show "\<And>x. x \<in> visited s \<Longrightarrow> dist s x \<le> d" by simp
  from * show "y \<notin> visited s \<Longrightarrow> (dist s y, y) \<in> set (pq s)" by simp
qed

lemma settleInvI:
  assumes "\<And>x. 0 \<le> dist s x" and "dist s source = 0" and "prev s source = None"
    and "\<And>d y. (d, y) \<in> set (pq s) \<Longrightarrow> dist s y \<le> d"
    and "\<And>d y x. (d, y) \<in> set (pq s) \<Longrightarrow> x \<in> visited s \<Longrightarrow> dist s x \<le> d"
    and "\<And>d y. (d, y) \<in> set (pq s) \<Longrightarrow> y \<notin> visited s \<Longrightarrow> (dist s y, y) \<in> set (pq s)"
    and "\<And>v. prev s v \<noteq> None \<Longrightarrow> chainTo (prev s) source v"
  shows "settleInv source s"
  unfolding settleInv_def
proof (intro conjI allI impI ballI)
  fix dy assume "dy \<in> set (pq s)"
  then have "(fst dy, snd dy) \<in> set (pq s)" by simp
  from assms(4) [OF this] assms(5) [OF this] assms(6) [OF this]
  show "case dy of (d, y) \<Rightarrow> dist s y \<le> d \<and> (\<forall>x \<in> visited s. dist s x \<le> d) \<and>
        (y \<notin> visited s \<longrightarrow> (dist s y, y) \<in> set (pq s))"
    by (simp add: case_prod_beta)
qed (use assms(1,2,3,7) in simp_all)

lemma settle_pop_skip:
  assumes inv: "settleInv source s" and q: "pq s = x # xs" and vis: "snd (pq_top x xs) \<in> visited s"
  shows "settleInv source (s\<lparr>pq := remove1 (pq_top x xs) (x # xs)\<rparr>)"
proof -
  define s1 where "s1 = s\<lparr>pq := remove1 (pq_top x xs) (x # xs)\<rparr>"
  have f: "dist s1 = dist s" "prev s1 = prev s" "visited s1 = visited s"
    "pq s1 = remove1 (pq_top x xs) (pq s)"
    by (simp_all add: s1_def q del: remove1.simps)
  have sub: "dy \<in> set (pq s)" if "dy \<in> set (pq s1)" for dy
    using that set_remove1_subset [of "pq_top x xs" "pq s"] unfolding f by auto
  have "settleInv source s1"
  proof (rule settleInvI)
    fix d y assume "(d, y) \<in> set (pq s1)"
    then have in_s: "(d, y) \<in> set (pq s)" by (rule sub)
    from settleInv_pq(1) [OF inv in_s] show "dist s1 y \<le> d" by (simp add: f)
    { fix x assume "x \<in> visited s1"
      then have "x \<in> visited s" by (simp add: f)
      from settleInv_pq(2) [OF inv in_s this] show "dist s1 x \<le> d" by (simp add: f) }
    assume "y \<notin> visited s1"
    then have nv: "y \<notin> visited s" by (simp add: f)
    from settleInv_pq(3) [OF inv in_s nv] have "(dist s y, y) \<in> set (pq s)" .
    moreover from nv vis have "y \<noteq> snd (pq_top x xs)" by auto
    then have "(dist s y, y) \<noteq> pq_top x xs" by (cases "pq_top x xs") simp
    ultimately show "(dist s1 y, y) \<in> set (pq s1)" by (simp add: f)
  qed (use inv in \<open>simp_all add: f settleInv_def\<close>)
  then show ?thesis unfolding s1_def .
qed

lemma settle_pop_visit:
  assumes inv: "settleInv source s"
    and q: "pq s = x # xs" and u: "u = snd (pq_top x xs)" and nvis: "u \<notin> visited s"
  shows "settleInv source (s\<lparr>pq := remove1 (pq_top x xs) (x # xs), visited := insert u (visited s)\<rparr>)"
    and "expanding u (s\<lparr>pq := remove1 (pq_top x xs) (x # xs), visited := insert u (visited s)\<rparr>)"
proof -
  define s1 where "s1 = s\<lparr>pq := remove1 (pq_top x xs) (x # xs), visited := insert u (visited s)\<rparr>"
  define d where "d = fst (pq_top x xs)"
  have f: "dist s1 = dist s" "prev s1 = prev s" "visited s1 = insert u (visited s)"
    "pq s1 = remove1 (pq_top x xs) (pq s)"
    by (simp_all add: s1_def q del: remove1.simps)
  have top: "pq_top x xs = (d, u)" by (simp add: d_def u)
  have top_in: "(d, u) \<in> set (pq s)" using pq_top_in [of x xs] by (simp add: top q)
  have sub: "dy \<in> set (pq s)" if "dy \<in> set (pq s1)" for dy
    using that set_remove1_subset [of "pq_top x xs" "pq s"] unfolding f by auto
  have d_le: "d \<le> d'" if "(d', y) \<in> set (pq s)" for d' y
    using pq_top_fst_le [of "(d', y)" x xs] that by (simp add: q d_def)
  from settleInv_pq(3) [OF inv top_in nvis] have "(dist s u, u) \<in> set (pq s)" .
  then have "d \<le> dist s u" by (rule d_le)
  with settleInv_pq(1) [OF inv top_in] have du: "dist s u = d" by simp
  have settled: "dist s x \<le> dist s u" if "x \<in> visited s" for x
    using settleInv_pq(2) [OF inv top_in that] by (simp add: du)
  have "settleInv source s1"
  proof (rule settleInvI)
    fix d' y assume "(d', y) \<in> set (pq s1)"
    then have in_s: "(d', y) \<in> set (pq s)" by (rule sub)
    from settleInv_pq(1) [OF inv in_s] show "dist s1 y \<le> d'" by (simp add: f)
    { fix x assume "x \<in> visited s1"
      then consider "x = u" | "x \<in> visited s" by (auto simp: f)
      then show "dist s1 x \<le> d'"
      proof cases
        case 1
        with d_le [OF in_s] show ?thesis by (simp add: f du)
      next
        case 2
        from settleInv_pq(2) [OF inv in_s 2] show ?thesis by (simp add: f)
      qed }
    assume "y \<notin> visited s1"
    then have nv: "y \<notin> visited s" and "y \<noteq> u" by (simp_all add: f)
    from settleInv_pq(3) [OF inv in_s nv] have "(dist s y, y) \<in> set (pq s)" .
    moreover from \<open>y \<noteq> u\<close> have "(dist s y, y) \<noteq> pq_top x xs" by (simp add: top)
    ultimately show "(dist s1 y, y) \<in> set (pq s1)" by (simp add: f)
  qed (use inv in \<open>simp_all add: f settleInv_def\<close>)
  then show "settleInv source (s\<lparr>pq := remove1 (pq_top x xs) (x # xs), visited := insert u (visited s)\<rparr>)"
    unfolding s1_def .
  have "expanding u s1"
    unfolding expanding_def using settled by (auto simp: f)
  then show "expanding u (s\<lparr>pq := remove1 (pq_top x xs) (x # xs), visited := insert u (visited s)\<rparr>)"
    unfolding s1_def .
qed

lemma settle_relax:
  assumes fit: "timesFit g" and l: "linkInv skip g source s" and inv: "settleInv source s"
    and bnd: "boundInv g s" and e: "expanding u s" and ve: "ve \<in> set (adjOf g u)"
  shows "settleInv source (relax skip u s ve) \<and> boundInv g (relax skip u s ve) \<and>
         expanding u (relax skip u s ve)"
proof (cases "relax skip u s ve = s")
  case True
  with inv bnd e show ?thesis by simp
next
  case False
  obtain v edge where ve_eq: "ve = (v, edge)" by (cases ve)
  define D where "D = int_add (dist s u) (drivingTime edge)"
  define s' where "s' = s\<lparr>dist := (dist s)(v := D), prev := (prev s)(v \<mapsto> u), pq := pq s @ [(D, v)]\<rparr>"
  from False have c: "drivingTime edge \<noteq> -1" "D < dist s v" and r: "relax skip u s ve = s'"
    by (auto simp: relax_def ve_eq Let_def D_def s'_def split: if_splits)
  have f: "dist s' = (dist s)(v := D)" "prev s' = (prev s)(v \<mapsto> u)" "visited s' = visited s"
    "pq s' = pq s @ [(D, v)]"
    by (simp_all add: s'_def)
  from fit have valid: "validTimes g"
    and total: "sum_list (map (\<lambda>kes. drivingSum (snd kes)) g) \<le> INT_MAX"
    by (simp_all add: timesFit_def)
  from validTimes_adjOf(1) [OF valid ve [unfolded ve_eq]] c(1) have w: "0 \<le> drivingTime edge" by simp
  from inv have nonneg: "0 \<le> dist s x" for x by (simp add: settleInv_def)
  from inv have src: "dist s source = 0" "prev s source = None" by (simp_all add: settleInv_def)
  from inv have chains: "chainTo (prev s) source z" if "prev s z \<noteq> None" for z
    using that by (simp add: settleInv_def)
  from e have uv: "u \<in> visited s" and settled: "\<And>x. x \<in> visited s \<Longrightarrow> dist s x \<le> dist s u"
    by (simp_all add: expanding_def)
  from bnd have fin: "finite (visited s)" by (simp add: boundInv_def)
  from bnd uv have "dist s u \<le> outSum g (visited s - {u})" by (simp add: boundInv_def)
  moreover from ve have "drivingTime edge \<le> drivingSum (adjOf g u)"
    unfolding ve_eq by (rule drivingSum_member)
  ultimately have sum_le: "dist s u + drivingTime edge \<le> outSum g (visited s)"
    using outSum_split [OF fin uv, of g] by simp
  also have "\<dots> \<le> sum_list (map (\<lambda>kes. drivingSum (snd kes)) g)"
    using fin by (rule outSum_le_total)
  finally have "dist s u + drivingTime edge \<le> INT_MAX" using total by simp
  moreover from nonneg [of u] w have "INT_MIN \<le> dist s u + drivingTime edge"
    by (simp add: INT_MIN_def)
  ultimately have D_eq: "D = dist s u + drivingTime edge"
    by (simp add: D_def int_add_def wrapInt_id)
  from nonneg [of u] w have D0: "0 \<le> D" and DU: "dist s u \<le> D" by (simp_all add: D_eq)
  have nv: "v \<notin> visited s"
  proof
    assume "v \<in> visited s"
    from settled [OF this] DU c(2) show False by simp
  qed
  with uv have vu: "v \<noteq> u" by auto
  from src(1) D0 c(2) have vs: "v \<noteq> source" by auto
  from l have pv: "b \<in> visited s" if "prev s a = Some b" for a b
    using that unfolding linkInv_def by fast
  from l uv have ugood: "u = source \<or> prev s u \<noteq> None" unfolding linkInv_def by fast
  have cu: "chainTo ((prev s)(v \<mapsto> u)) source u"
  proof (cases "u = source")
    case True
    show ?thesis unfolding True by (rule chainTo.here)
  next
    case False
    with ugood have "chainTo (prev s) source u" by (intro chains) simp
    with pv nv show ?thesis using uv by (rule chainTo_avoid)
  qed
  have "((prev s)(v \<mapsto> u)) v = Some u" by simp
  with vs have cv: "chainTo ((prev s)(v \<mapsto> u)) source v" using cu by (rule chainTo.link)
  have "settleInv source s'"
  proof (rule settleInvI)
    fix x show "0 \<le> dist s' x" using nonneg D0 by (simp add: f)
  next
    show "dist s' source = 0" using src(1) vs by (simp add: f)
  next
    show "prev s' source = None" using src(2) vs by (simp add: f)
  next
    fix d y assume "(d, y) \<in> set (pq s')"
    then consider "(d, y) = (D, v)" | "(d, y) \<in> set (pq s)" by (auto simp: f)
    then show "dist s' y \<le> d"
    proof cases
      case 1
      then show ?thesis by (simp add: f)
    next
      case 2
      from settleInv_pq(1) [OF inv 2] c(2) show ?thesis by (auto simp: f)
    qed
  next
    fix d y x assume "(d, y) \<in> set (pq s')" and xv: "x \<in> visited s'"
    then consider "(d, y) = (D, v)" | "(d, y) \<in> set (pq s)" by (auto simp: f)
    moreover from xv nv have "x \<in> visited s" "x \<noteq> v" by (auto simp: f)
    ultimately show "dist s' x \<le> d"
    proof cases
      case 1
      with settled [OF \<open>x \<in> visited s\<close>] DU \<open>x \<noteq> v\<close> show ?thesis by (simp add: f)
    next
      case 2
      from settleInv_pq(2) [OF inv 2 \<open>x \<in> visited s\<close>] \<open>x \<noteq> v\<close> show ?thesis by (simp add: f)
    qed
  next
    fix d y assume in': "(d, y) \<in> set (pq s')" and "y \<notin> visited s'"
    then have ny: "y \<notin> visited s" by (simp add: f)
    show "(dist s' y, y) \<in> set (pq s')"
    proof (cases "y = v")
      case True
      then show ?thesis by (simp add: f)
    next
      case False
      with in' have "(d, y) \<in> set (pq s)" by (simp add: f)
      from settleInv_pq(3) [OF inv this ny] False show ?thesis by (simp add: f)
    qed
  next
    fix z assume "prev s' z \<noteq> None"
    show "chainTo (prev s') source z"
    proof (cases "z = v")
      case True
      with cv show ?thesis by (simp only: f)
    next
      case False
      with \<open>prev s' z \<noteq> None\<close> have "prev s z \<noteq> None" by (simp add: f)
      then have "chainTo (prev s) source z" by (rule chains)
      with cv show ?thesis unfolding f by (rule chainTo_update)
    qed
  qed
  moreover have "boundInv g s'"
  proof -
    have "dist s' x \<le> outSum g (visited s' - {x})" if "x \<in> visited s'" for x
    proof -
      from that nv have "x \<in> visited s" "x \<noteq> v" by (auto simp: f)
      with bnd show ?thesis by (simp add: boundInv_def f)
    qed
    moreover have "dist s' x \<le> outSum g (visited s')" if "prev s' x \<noteq> None" for x
    proof (cases "x = v")
      case True
      with sum_le show ?thesis by (simp add: f D_eq)
    next
      case False
      with that have "prev s x \<noteq> None" by (simp add: f)
      with bnd False show ?thesis by (simp add: boundInv_def f)
    qed
    ultimately show ?thesis using fin by (simp add: boundInv_def f)
  qed
  moreover have "expanding u s'"
    unfolding expanding_def using uv settled nv vu by (auto simp: f)
  ultimately show ?thesis unfolding r by simp
qed

lemma settle_loop:
  assumes fit: "timesFit g"
  shows "settleInv source (dijkstraLoop skip g (initState g source))"
proof -
  let ?P = "\<lambda>s. linkInv skip g source s \<and> settleInv source s \<and> boundInv g s"
  have "?P (dijkstraLoop skip g (initState g source))"
  proof (rule dijkstraLoop_invariant [where P = ?P])
    show "?P (initState g source)" by (simp add: linkInv_init settleInv_init boundInv_init)
  next
    fix s x xs
    assume "?P s" and "pq s = x # xs" and "snd (pq_top x xs) \<in> visited s"
    then show "?P (s\<lparr>pq := remove1 (pq_top x xs) (x # xs)\<rparr>)"
      by (simp add: linkInv_pop_skip settle_pop_skip boundInv_pop_skip del: remove1.simps)
  next
    fix s x xs
    assume P: "?P s" and q: "pq s = x # xs" and nv: "snd (pq_top x xs) \<notin> visited s"
    define u where "u = snd (pq_top x xs)"
    define s1 where "s1 = s\<lparr>pq := remove1 (pq_top x xs) (x # xs), visited := insert u (visited s)\<rparr>"
    let ?Q = "\<lambda>s. linkInv skip g source s \<and> settleInv source s \<and> boundInv g s \<and> expanding u s"
    from P have l: "linkInv skip g source s" and inv: "settleInv source s" and bnd: "boundInv g s"
      by simp_all
    from l q have l1: "linkInv skip g source s1" unfolding s1_def u_def by (rule linkInv_pop_visit)
    from inv have s1: "settleInv source s1" "expanding u s1"
      unfolding s1_def using q u_def nv [folded u_def] by (rule settle_pop_visit)+
    have "u \<in> snd ` set (pq s)"
      unfolding u_def q using pq_top_in [of x xs] by (rule imageI)
    with l have "u = source \<or> prev s u \<noteq> None" unfolding linkInv_def by fast
    then have "dist s u \<le> outSum g (visited s)"
    proof
      assume "u = source"
      with inv have "dist s u = 0" by (simp add: settleInv_def)
      then show ?thesis by (simp add: outSum_nonneg)
    next
      assume "prev s u \<noteq> None"
      with bnd show ?thesis by (simp add: boundInv_def)
    qed
    with bnd nv [folded u_def] have b1: "boundInv g s1" unfolding s1_def by (rule boundInv_pop_visit)
    from l1 s1 b1 have "?Q s1" by simp
    then have "?Q (relaxAll skip g u s1)"
    proof (rule relaxAll_invariant)
      fix s ve assume Q: "?Q s" and ve: "ve \<in> set (adjOf g u)"
      then have "u \<in> visited s" by (simp add: expanding_def)
      with Q ve have "linkInv skip g source (relax skip u s ve)" by (intro linkInv_relax) simp_all
      moreover from Q ve fit
      have "settleInv source (relax skip u s ve) \<and> boundInv g (relax skip u s ve) \<and>
            expanding u (relax skip u s ve)"
        by (intro settle_relax [where skip = skip]) simp_all
      ultimately show "?Q (relax skip u s ve)" by simp
    qed
    then show "?P (relaxAll skip g (snd (pq_top x xs))
                (s\<lparr>pq := remove1 (pq_top x xs) (x # xs),
                   visited := insert (snd (pq_top x xs)) (visited s)\<rparr>))"
      unfolding s1_def u_def by simp
  qed
  then show ?thesis by simp
qed

text \<open>On such a graph the walk back from the destination always arrives.\<close>

lemma search_returns:
  assumes "timesFit g"
  shows "\<exists>p. reconstruct (searchPrev skip g source) source dest = Some p"
proof (cases "searchPrev skip g source dest = None")
  case True
  then show ?thesis by (simp add: reconstruct_def)
next
  case False
  from settle_loop [OF assms, of source skip]
  have "\<forall>v. searchPrev skip g source v \<noteq> None \<longrightarrow> chainTo (searchPrev skip g source) source v"
    by (simp add: settleInv_def searchPrev_def)
  with False have "chainTo (searchPrev skip g source) source dest" by simp
  then obtain ns where "walkFrom (searchPrev skip g source) source dest ns"
    using chainTo_walkFrom by fast
  then have "walkBack (searchPrev skip g source) source dest [] = Some ([] @ ns)"
    by (rule walkBack_walkFrom)
  with False show ?thesis by (simp add: reconstruct_def)
qed

text \<open>And the source never receives a \<open>prev\<close> entry, so a search from a code to itself
  stops at \<^verbatim>\<open>if (!prev.count(dest)) return {};\<close>.\<close>

lemma search_same_endpoints:
  assumes "timesFit g"
  shows "reconstruct (searchPrev skip g source) source source = Some []"
proof -
  from settle_loop [OF assms, of source skip]
  have "searchPrev skip g source source = None"
    by (simp add: settleInv_def searchPrev_def)
  then show ?thesis by (simp add: reconstruct_def)
qed

section \<open>Facts about the searches and the aggregation used by several claims\<close>

text \<open>The graph of the scenario in the specification: A-B and B-D (drive 10, walk 20),
  A-C (drive 5, no walking), C-D (drive 5, walk 15).\<close>

definition scenarioGraph :: Graph where
  "scenarioGraph =
     addEdge (addEdge (addEdge (addEdge [] ''A'' ''B'' 10 20) ''B'' ''D'' 10 20)
       ''A'' ''C'' 5 (-1)) ''C'' ''D'' 5 15"

lemma timesFit_scenarioGraph: "timesFit scenarioGraph"
  by code_simp


lemma dijkstraRestricted_returns:
  "timesFit g \<Longrightarrow> \<exists>p. dijkstraRestricted g source dest avoidNodes avoidSegments = Some p"
  using search_returns [of g "skipRestricted avoidNodes avoidSegments" source dest]
  by (simp add: dijkstraRestricted_def searchPrev_def)

lemma dijkstraRestricted_same:
  "timesFit g \<Longrightarrow> dijkstraRestricted g x x avoidNodes avoidSegments = Some []"
  using search_same_endpoints [of g "skipRestricted avoidNodes avoidSegments" x]
  by (simp add: dijkstraRestricted_def searchPrev_def)

lemma segmentPairs_nth:
  "Suc j < length mp \<Longrightarrow>
   (mp ! j, mp ! Suc j) \<in> set (segmentPairs mp) \<and> (mp ! Suc j, mp ! j) \<in> set (segmentPairs mp)"
proof (induction mp arbitrary: j rule: segmentPairs.induct)
  case (1 a b rest)
  show ?case
  proof (cases j)
    case 0
    then show ?thesis by simp
  next
    case (Suc k)
    with "1.prems" have "Suc k < length (b # rest)" by simp
    from "1.IH" [OF this] Suc show ?thesis by simp
  qed
qed simp_all

text \<open>
  The pair \<open>(a, b)\<close> of consecutive nodes cannot be summed: \<open>adj[a]\<close> holds no entry for
  \<open>b\<close>, or the entry that the aggregation reads (the first one) has the selected time
  \<open>-1\<close>.
\<close>

definition unavailableStep :: "(EdgeData \<Rightarrow> int) \<Rightarrow> Graph \<Rightarrow> string \<Rightarrow> string \<Rightarrow> bool" where
  "unavailableStep sel g a b =
     (case firstEdge b (adjOf g a) of None \<Rightarrow> True | Some edge \<Rightarrow> sel edge = -1)"


lemma firstEdge_None_iff: "firstEdge w es = None \<longleftrightarrow> w \<notin> fst ` set es"
  by (induction w es rule: firstEdge.induct) auto










section \<open>The loop of the eco route\<close>

text \<open>
  The legs that the loop holds as best are the non-empty paths that the two searches
  returned for the parking node it holds as best.
\<close>

definition ecoLegs ::
  "Graph \<Rightarrow> string \<Rightarrow> string \<Rightarrow> string set \<Rightarrow> (string \<times> string) set \<Rightarrow> EcoBest \<Rightarrow> bool" where
  "ecoLegs g source dest avoidNodes avoidSegments b \<longleftrightarrow>
     dijkstraRestricted g source (bestPark b) avoidNodes avoidSegments = Some (bestDrivePath b) \<and>
     dijkstraRestricted g (bestPark b) dest avoidNodes avoidSegments = Some (bestWalkPath b) \<and>
     bestDrivePath b \<noteq> [] \<and> bestWalkPath b \<noteq> []"

lemma ecoStep_legs:
  assumes "ecoStep g source dest maxWalkTime avoidNodes avoidSegments b park = Some b'"
  shows "b' = b \<or> ecoLegs g source dest avoidNodes avoidSegments b'"
proof (cases "park \<in> avoidNodes")
  case True
  with assms show ?thesis by (simp add: ecoStep_def)
next
  case False
  from assms False obtain drivePath where
    d: "dijkstraRestricted g source park avoidNodes avoidSegments = Some drivePath"
    by (cases "dijkstraRestricted g source park avoidNodes avoidSegments") (simp_all add: ecoStep_def)
  from assms False d obtain walkPath where
    w: "dijkstraRestricted g park dest avoidNodes avoidSegments = Some walkPath"
    by (cases "dijkstraRestricted g park dest avoidNodes avoidSegments") (simp_all add: ecoStep_def)
  show ?thesis
  proof (cases "drivePath = [] \<or> walkPath = []")
    case True
    with assms False d w show ?thesis by (simp add: ecoStep_def)
  next
    case ne: False
    show ?thesis
    proof (cases "calculateWalkingTime g walkPath > maxWalkTime")
      case True
      with assms False d w ne show ?thesis by (simp add: ecoStep_def)
    next
      case le: False
      from assms False d w ne le
      have "b' = ecoUpdate b park drivePath walkPath
                   (calculateDrivingTime g drivePath) (calculateWalkingTime g walkPath)"
        by (simp add: ecoStep_def Let_def)
      then have "b' = b \<or>
        (bestPark b' = park \<and> bestDrivePath b' = drivePath \<and> bestWalkPath b' = walkPath)"
        by (simp add: ecoUpdate_def Let_def)
      with d w ne show ?thesis by (auto simp: ecoLegs_def)
    qed
  qed
qed

lemma ecoLoop_legs:
  assumes "ecoLoop g source dest maxWalkTime avoidNodes avoidSegments b cands = Some b'"
  shows "b' = b \<or> ecoLegs g source dest avoidNodes avoidSegments b'"
  using assms
proof (induction cands arbitrary: b)
  case Nil
  then show ?case by simp
next
  case (Cons park rest)
  from Cons.prems obtain b1 where
    s: "ecoStep g source dest maxWalkTime avoidNodes avoidSegments b park = Some b1"
    and l: "ecoLoop g source dest maxWalkTime avoidNodes avoidSegments b1 rest = Some b'"
    by (cases "ecoStep g source dest maxWalkTime avoidNodes avoidSegments b park") simp_all
  from Cons.IH [OF l] ecoStep_legs [OF s] show ?case by fast
qed

text \<open>The legs of a non-empty result are what the two searches returned for its parking node.\<close>

lemma findEcoRoute_legs:
  assumes "findEcoRoute g locations source dest maxWalkTime avoidNodes avoidSegments
             = Some ((drivePath, park, walkPath), message)"
    and "drivePath \<noteq> [] \<or> walkPath \<noteq> []"
  shows "dijkstraRestricted g source park avoidNodes avoidSegments = Some drivePath"
    and "dijkstraRestricted g park dest avoidNodes avoidSegments = Some walkPath"
    and "drivePath \<noteq> []" and "walkPath \<noteq> []"
proof -
  define cands where "cands = map code (filter hasParking locations)"
  from assms have ne: "cands \<noteq> []"
    by (auto simp: findEcoRoute_def Let_def cands_def)
  from assms ne obtain b where
    l: "ecoLoop g source dest maxWalkTime avoidNodes avoidSegments initBest cands = Some b"
    by (cases "ecoLoop g source dest maxWalkTime avoidNodes avoidSegments initBest cands")
      (simp_all add: findEcoRoute_def Let_def cands_def)
  from assms ne l have full: "bestDrivePath b \<noteq> []" "bestWalkPath b \<noteq> []"
    and r: "drivePath = bestDrivePath b" "park = bestPark b" "walkPath = bestWalkPath b"
    by (auto simp: findEcoRoute_def Let_def cands_def split: if_splits)
  from full have "b \<noteq> initBest" by (auto simp: initBest_def)
  with ecoLoop_legs [OF l] have "ecoLegs g source dest avoidNodes avoidSegments b" by simp
  then show "dijkstraRestricted g source park avoidNodes avoidSegments = Some drivePath"
    and "dijkstraRestricted g park dest avoidNodes avoidSegments = Some walkPath"
    and "drivePath \<noteq> []" and "walkPath \<noteq> []"
    by (simp_all add: ecoLegs_def r)
qed

lemma ecoLoop_returns:
  assumes "timesFit g"
  shows "\<exists>b'. ecoLoop g source dest maxWalkTime avoidNodes avoidSegments b cands = Some b'"
proof (induction cands arbitrary: b)
  case Nil
  show ?case by simp
next
  case (Cons park rest)
  from dijkstraRestricted_returns [OF assms] obtain p1 where
    p1: "dijkstraRestricted g source park avoidNodes avoidSegments = Some p1" ..
  from dijkstraRestricted_returns [OF assms] obtain p2 where
    p2: "dijkstraRestricted g park dest avoidNodes avoidSegments = Some p2" ..
  have "\<exists>b1. ecoStep g source dest maxWalkTime avoidNodes avoidSegments b park = Some b1"
    by (simp add: ecoStep_def p1 p2 Let_def)
  then obtain b1 where
    "ecoStep g source dest maxWalkTime avoidNodes avoidSegments b park = Some b1" ..
  with Cons.IH [of b1] show ?case by simp
qed

lemma findEcoRoute_returns:
  assumes "timesFit g"
  shows "\<exists>r. findEcoRoute g locations source dest maxWalkTime avoidNodes avoidSegments = Some r"
proof -
  from ecoLoop_returns [OF assms] obtain b where
    "ecoLoop g source dest maxWalkTime avoidNodes avoidSegments initBest
       (map code (filter hasParking locations)) = Some b" ..
  then show ?thesis by (simp add: findEcoRoute_def Let_def)
qed

text \<open>
  Graphs and location lists of the examples: two edges between the same pair of nodes,
  the first stored one without driving time; a car park whose way to the destination
  cannot be walked; three edges whose driving times are valid and add up to more than
  \<open>INT_MAX\<close>; one edge with a driving time of 2000000000; and the scenario of the
  specification with parking at A, C and D, and with parking at B and C.
\<close>

definition parallelGraph :: Graph where
  "parallelGraph = addEdge (addEdge (addEdge [] ''A'' ''B'' (-1) 5) ''A'' ''B'' 3 5) ''B'' ''C'' 4 4"

definition noWalkGraph :: Graph where
  "noWalkGraph = addEdge (addEdge [] ''S'' ''P'' 5 5) ''P'' ''D'' 5 (-1)"


definition longEdgeGraph :: Graph where
  "longEdgeGraph = addEdge [] ''A'' ''B'' 2000000000 1"

definition scenarioLocations :: "Location list" where
  "scenarioLocations =
     [\<lparr>name = ''a'', id_loc = 1, code = ''A'', hasParking = True\<rparr>,
      \<lparr>name = ''b'', id_loc = 2, code = ''B'', hasParking = False\<rparr>,
      \<lparr>name = ''c'', id_loc = 3, code = ''C'', hasParking = True\<rparr>,
      \<lparr>name = ''d'', id_loc = 4, code = ''D'', hasParking = True\<rparr>]"

definition parkingBC :: "Location list" where
  "parkingBC =
     [\<lparr>name = ''a'', id_loc = 1, code = ''A'', hasParking = False\<rparr>,
      \<lparr>name = ''b'', id_loc = 2, code = ''B'', hasParking = True\<rparr>,
      \<lparr>name = ''c'', id_loc = 3, code = ''C'', hasParking = True\<rparr>,
      \<lparr>name = ''d'', id_loc = 4, code = ''D'', hasParking = False\<rparr>]"

section \<open>The claims\<close>

text \<open>
  C9. For every graph, source and destination, \<open>dijkstraRestricted\<close> called with the
  empty excluded-node set and the empty excluded-segment set returns exactly the same
  path as \<open>dijkstraShortestPath\<close> (and does not return exactly when it does not).
\<close>

theorem C9_restricted_empty_sets_is_shortest:
  "dijkstraRestricted g source dest {} {} = dijkstraShortestPath g source dest"
proof -
  have "skipRestricted {} {} = skipShortest"
    by (intro ext) (simp add: skipRestricted_def skipShortest_def)
  then show ?thesis
    by (simp add: dijkstraRestricted_def dijkstraShortestPath_def)
qed

text \<open>
  C6. The claim: when the main path has fewer than two nodes, \<open>findAlternativeRoute\<close>
  returns the empty path and never reads outside the main path. The code has no such
  guard: for the empty main path and for a one-element main path the construction of
  \<open>forbiddenNodes\<close> is given an iterator pair that is not a range of the vector, and for
  the empty main path the loop that fills \<open>forbiddenEdges\<close> reads \<open>mainPath[0]\<close>.
  The theorem evaluates the code there, for every graph, source and destination.
\<close>

theorem C6_short_main_path_reads_out_of_bounds:
  "findAlternativeRoute g source dest [] = Some (Inl OutOfBounds)
   \<and> findAlternativeRoute g source dest [x] = Some (Inl OutOfBounds)"
  by (simp add: findAlternativeRoute_def forbiddenNodesOf_def)

text \<open>
  C3 (amended). The claim says that the path returned by \<open>dijkstraRestricted\<close> contains
  no excluded node, also when the source or the destination is excluded. The
  \<open>continue\<close> line tests only the node a round moves to, never the source the search
  starts from. What holds, for every graph and all exclusion sets: when the destination
  is excluded the result is the empty path; a returned path that is not empty starts at
  the source, whether it is excluded or not, and ends at the destination; every node
  of a returned path after its first is outside the excluded-node set; and no two
  consecutive nodes of it form an excluded segment, in either direction.
\<close>

theorem C3_restricted_avoids_exclusions:
  "(dest \<in> avoidNodes \<longrightarrow> dijkstraRestricted g source dest avoidNodes avoidSegments = Some []) \<and>
   (dijkstraRestricted g source dest avoidNodes avoidSegments = Some p \<longrightarrow>
      (p \<noteq> [] \<longrightarrow> hd p = source \<and> last p = dest) \<and>
      (\<forall>x \<in> set (tl p). x \<notin> avoidNodes) \<and>
      (\<forall>i. Suc i < length p \<longrightarrow>
         (p ! i, p ! Suc i) \<notin> avoidSegments \<and> (p ! Suc i, p ! i) \<notin> avoidSegments))"
proof (rule conjI; rule impI)
  assume ex: "dest \<in> avoidNodes"
  have inv: "linkInv (skipRestricted avoidNodes avoidSegments) g source
        (dijkstraLoop (skipRestricted avoidNodes avoidSegments) g (initState g source))"
    by (rule linkInv_loop)
  have "searchPrev (skipRestricted avoidNodes avoidSegments) g source dest = None"
  proof (rule ccontr)
    assume "searchPrev (skipRestricted avoidNodes avoidSegments) g source dest \<noteq> None"
    then obtain u where
      "prev (dijkstraLoop (skipRestricted avoidNodes avoidSegments) g (initState g source)) dest
         = Some u"
      by (auto simp: searchPrev_def)
    with inv have "\<not> skipRestricted avoidNodes avoidSegments u dest"
      unfolding linkInv_def by fast
    with ex show False by (simp add: skipRestricted_def)
  qed
  then show "dijkstraRestricted g source dest avoidNodes avoidSegments = Some []"
    by (simp add: dijkstraRestricted_def searchPrev_def reconstruct_def)
next
  assume a: "dijkstraRestricted g source dest avoidNodes avoidSegments = Some p"
  then have r: "reconstruct (searchPrev (skipRestricted avoidNodes avoidSegments) g source) source dest = Some p"
    by (simp add: dijkstraRestricted_def searchPrev_def)
  show "(p \<noteq> [] \<longrightarrow> hd p = source \<and> last p = dest) \<and>
      (\<forall>x \<in> set (tl p). x \<notin> avoidNodes) \<and>
      (\<forall>i. Suc i < length p \<longrightarrow>
         (p ! i, p ! Suc i) \<notin> avoidSegments \<and> (p ! Suc i, p ! i) \<notin> avoidSegments)"
  proof (cases "p = []")
    case True
    then show ?thesis by simp
  next
    case False
    have step: "\<not> skipRestricted avoidNodes avoidSegments (p ! i) (p ! Suc i)" if "Suc i < length p" for i
      using search_path_facts(4) [OF r False that] by (rule conjunct1)
    show ?thesis
    proof (intro conjI ballI allI impI)
      from r False show "hd p = source" by (rule search_path_facts(1))
      from r False show "last p = dest" by (rule search_path_facts(2))
    next
      fix x assume "x \<in> set (tl p)"
      then have "\<exists>i. Suc i < length p \<and> x = p ! Suc i" by (rule in_set_tl_nth)
      then obtain i where "Suc i < length p" "x = p ! Suc i" by (elim exE conjE)
      with step [of i] show "x \<notin> avoidNodes" by (simp add: skipRestricted_def)
    next
      fix i assume "Suc i < length p"
      from step [OF this] show "(p ! i, p ! Suc i) \<notin> avoidSegments" "(p ! Suc i, p ! i) \<notin> avoidSegments"
        by (simp_all add: skipRestricted_def)
    qed
  qed
qed

text \<open>
  On the scenario graph from A to D, where the shortest path is A, C, D: with C excluded
  the path goes over B; with the segment (D, C) excluded, given against the direction
  of travel, the path goes over B; with D excluded the result is the empty path.
\<close>

theorem C3_restricted_avoids_exclusions_witness:
  "dijkstraRestricted scenarioGraph ''A'' ''D'' {} {} = Some [''A'', ''C'', ''D'']
   \<and> dijkstraRestricted scenarioGraph ''A'' ''D'' {''C''} {} = Some [''A'', ''B'', ''D'']
   \<and> hd [''A'', ''B'', ''D''] = ''A'' \<and> last [''A'', ''B'', ''D''] = ''D''
   \<and> ''B'' \<notin> {''C''} \<and> ''D'' \<notin> {''C''}
   \<and> dijkstraRestricted scenarioGraph ''A'' ''D'' {} {(''D'', ''C'')} = Some [''A'', ''B'', ''D'']
   \<and> (''A'', ''B'') \<notin> {(''D'', ''C'')} \<and> (''B'', ''A'') \<notin> {(''D'', ''C'')}
   \<and> (''B'', ''D'') \<notin> {(''D'', ''C'')} \<and> (''D'', ''B'') \<notin> {(''D'', ''C'')}
   \<and> dijkstraRestricted scenarioGraph ''A'' ''D'' {''D''} {} = Some []"
proof -
  have plain: "dijkstraRestricted scenarioGraph ''A'' ''D'' {} {} = Some [''A'', ''C'', ''D'']"
    by code_simp
  have nodes: "dijkstraRestricted scenarioGraph ''A'' ''D'' {''C''} {} = Some [''A'', ''B'', ''D'']"
    by code_simp
  have segs: "dijkstraRestricted scenarioGraph ''A'' ''D'' {} {(''D'', ''C'')} = Some [''A'', ''B'', ''D'']"
    by code_simp
  have ex: "''D'' \<in> {''D''}" by simp
  from C3_restricted_avoids_exclusions [of "''D''" "{''C''}" scenarioGraph "''A''" "{}" "[''A'', ''B'', ''D'']"] nodes
  have "hd [''A'', ''B'', ''D''] = ''A'' \<and> last [''A'', ''B'', ''D''] = ''D''
        \<and> (\<forall>x \<in> set (tl [''A'', ''B'', ''D'']). x \<notin> {''C''})"
    by simp
  moreover
  from C3_restricted_avoids_exclusions [of "''D''" "{}" scenarioGraph "''A''" "{(''D'', ''C'')}" "[''A'', ''B'', ''D'']"] segs
  have "\<forall>i. Suc i < length [''A'', ''B'', ''D''] \<longrightarrow>
         ([''A'', ''B'', ''D''] ! i, [''A'', ''B'', ''D''] ! Suc i) \<notin> {(''D'', ''C'')} \<and>
         ([''A'', ''B'', ''D''] ! Suc i, [''A'', ''B'', ''D''] ! i) \<notin> {(''D'', ''C'')}"
    by fast
  moreover
  from C3_restricted_avoids_exclusions [of "''D''" "{''D''}" scenarioGraph "''A''" "{}" "[]"] ex
  have "dijkstraRestricted scenarioGraph ''A'' ''D'' {''D''} {} = Some []" by fast
  ultimately show ?thesis using plain nodes segs by simp
qed

text \<open>The claim as stated fails when the source is excluded: the path contains it.\<close>

theorem C3_source_excluded_counterexample:
  "dijkstraRestricted (addEdge [] ''A'' ''B'' 5 5) ''A'' ''B'' {''A''} {} = Some [''A'', ''B'']
   \<and> \<not> (\<forall>x \<in> set [''A'', ''B'']. x \<notin> {''A''})"
proof -
  have "dijkstraRestricted (addEdge [] ''A'' ''B'' 5 5) ''A'' ''B'' {''A''} {} = Some [''A'', ''B'']"
    by code_simp
  then show ?thesis by simp
qed

text \<open>
  C2. The claim: \<open>dijkstraShortestPath(g, x, x)\<close> returns the one-element path \<open>[x]\<close>,
  and the empty path only when no route exists. The code returns the empty path: the
  distance of the source is never improved, so \<open>prev\<close> never receives an entry for it,
  and \<^verbatim>\<open>if (!prev.count(dest)) return {};\<close> returns before the loop that would have
  produced \<open>[x]\<close>. The theorem evaluates the code for every \<open>x\<close> and every graph whose
  times are durations with driving times that together fit in \<open>int\<close>.
\<close>

theorem C2_same_endpoints_give_empty_path:
  "timesFit g \<Longrightarrow> dijkstraShortestPath g x x = Some []"
  using search_same_endpoints [of g skipShortest x]
  by (simp add: dijkstraShortestPath_def searchPrev_def)

theorem C2_same_endpoints_give_empty_path_witness:
  "timesFit scenarioGraph \<and> dijkstraShortestPath scenarioGraph ''A'' ''A'' = Some []
   \<and> dijkstraShortestPath scenarioGraph ''A'' ''A'' \<noteq> Some [''A'']"
  using C2_same_endpoints_give_empty_path [OF timesFit_scenarioGraph, of "''A''"]
  by (simp add: timesFit_scenarioGraph)

text \<open>
  C5. When \<open>findAlternativeRoute\<close> returns a path, every node of it other than the
  source lies outside the intermediate nodes of the main path (its elements but the
  first and the last), and no two consecutive nodes of it are two consecutive nodes of
  the main path, in either direction.
\<close>

theorem C5_alternative_shares_nothing_with_main_path:
  assumes "findAlternativeRoute g source dest mainPath = Some (Inr p)"
  shows "(\<forall>x \<in> set p. x \<noteq> source \<longrightarrow> x \<notin> set (butlast (tl mainPath))) \<and>
         (\<forall>i j. Suc i < length p \<and> Suc j < length mainPath \<longrightarrow>
            (p ! i, p ! Suc i) \<noteq> (mainPath ! j, mainPath ! Suc j) \<and>
            (p ! i, p ! Suc i) \<noteq> (mainPath ! Suc j, mainPath ! j))"
proof (cases "p = []")
  case True
  then show ?thesis by simp
next
  case False
  define fN where "fN = set (butlast (tl mainPath))"
  define fE where "fE = set (segmentPairs mainPath)"
  from assms have len: "\<not> length mainPath < 2"
    by (auto simp: findAlternativeRoute_def forbiddenNodesOf_def split: if_splits)
  then have ne: "mainPath \<noteq> []" by auto
  from assms len ne
  have r: "reconstruct (searchPrev (skipAlternative fN fE) g source) source dest = Some p"
    by (auto simp: findAlternativeRoute_def forbiddenNodesOf_def forbiddenEdgesOf_def
        searchPrev_def fN_def fE_def)
  have step: "\<not> skipAlternative fN fE (p ! i) (p ! Suc i)" if "Suc i < length p" for i
    using search_path_facts(4) [OF r False that] by (rule conjunct1)
  have hd: "hd p = source" using r False by (rule search_path_facts(1))
  show ?thesis
  proof (intro conjI ballI allI impI)
    fix x assume "x \<in> set p" and "x \<noteq> source"
    with hd False have "x \<in> set (tl p)" by (cases p) auto
    then have "\<exists>i. Suc i < length p \<and> x = p ! Suc i" by (rule in_set_tl_nth)
    then obtain i where "Suc i < length p" "x = p ! Suc i" by (elim exE conjE)
    with step [of i] show "x \<notin> set (butlast (tl mainPath))"
      by (simp add: skipAlternative_def fN_def)
  next
    fix i j assume ij: "Suc i < length p \<and> Suc j < length mainPath"
    then have in_fE: "(mainPath ! j, mainPath ! Suc j) \<in> fE" "(mainPath ! Suc j, mainPath ! j) \<in> fE"
      using segmentPairs_nth [of j mainPath] by (simp_all add: fE_def)
    from ij step [of i] have "(p ! i, p ! Suc i) \<notin> fE" by (simp add: skipAlternative_def)
    with in_fE show "(p ! i, p ! Suc i) \<noteq> (mainPath ! j, mainPath ! Suc j)"
      "(p ! i, p ! Suc i) \<noteq> (mainPath ! Suc j, mainPath ! j)" by metis+
  qed
qed

theorem C5_alternative_shares_nothing_with_main_path_witness:
  "findAlternativeRoute scenarioGraph ''A'' ''D'' [''A'', ''C'', ''D''] = Some (Inr [''A'', ''B'', ''D''])
   \<and> ''B'' \<notin> set (butlast (tl [''A'', ''C'', ''D'']))
   \<and> ''D'' \<notin> set (butlast (tl [''A'', ''C'', ''D'']))
   \<and> (''A'', ''B'') \<noteq> (''A'', ''C'') \<and> (''B'', ''D'') \<noteq> (''D'', ''C'')"
proof -
  have h: "findAlternativeRoute scenarioGraph ''A'' ''D'' [''A'', ''C'', ''D'']
             = Some (Inr [''A'', ''B'', ''D''])"
    by code_simp
  from C5_alternative_shares_nothing_with_main_path [OF h]
  have "\<forall>x \<in> set [''A'', ''B'', ''D''].
          x \<noteq> ''A'' \<longrightarrow> x \<notin> set (butlast (tl [''A'', ''C'', ''D'']))"
    by (rule conjunct1)
  with h show ?thesis by simp
qed




text \<open>
  C4. The claim: the aggregated driving time of the route over a waypoint is the sum of
  the aggregated driving times of its two legs. The search relaxes over every stored
  edge of a pair of nodes, \<open>calculateDrivingTime\<close> reads the first stored one only. On a
  graph with two edges A-B, the first stored one without driving time and the second
  with driving time 3, and an edge B-C with driving time 4, the search from A reaches B
  at distance 3 and returns the legs A, B and B, C; the route is A, B, C;
  \<open>calculateDrivingTime\<close> reports \<open>-1\<close> for the leg A, B that the search drove, 4 for the
  leg B, C, and \<open>-1\<close> for the route, which is not the sum of the two.
\<close>

theorem C4_parallel_edges_aggregate_is_not_the_sum:
  "dijkstraRestricted parallelGraph ''A'' ''B'' {} {} = Some [''A'', ''B'']
   \<and> dijkstraRestricted parallelGraph ''B'' ''C'' {} {} = Some [''B'', ''C'']
   \<and> restrictedRoute parallelGraph ''A'' ''C'' ''B'' {} {} = Some [''A'', ''B'', ''C'']
   \<and> dist (dijkstraLoop (skipRestricted {} {}) parallelGraph (initState parallelGraph ''A'')) ''B'' = 3
   \<and> calculateDrivingTime parallelGraph [''A'', ''B''] = -1
   \<and> calculateDrivingTime parallelGraph [''B'', ''C''] = 4
   \<and> calculateDrivingTime parallelGraph [''A'', ''B'', ''C''] = -1"
  by code_simp

text \<open>
  C1. The claim: the walk leg of a non-empty result of \<open>findEcoRoute\<close> uses only segments
  whose walking time is available, and its aggregated walking time is within the
  budget. \<open>calculateWalkingTime\<close> reports a leg that cannot be walked as \<open>-1\<close>, and
  \<open>findEcoRoute\<close> compares that value with the budget as if it were a time:
  \<^verbatim>\<open>if (walkTime > maxWalkTime) continue;\<close> lets it pass. On S-P (drive 5, walk 5) and
  P-D (drive 5, no walking) with parking at P and a budget of 10 the result is not
  empty, its walk leg is P, D, the only segment of that leg has the walking time \<open>-1\<close>,
  and the aggregated walking time of the leg is the invalid value.
\<close>

theorem C1_unwalkable_walk_leg_is_returned:
  "findEcoRoute noWalkGraph
     [\<lparr>name = ''car park'', id_loc = 1, code = ''P'', hasParking = True\<rparr>] ''S'' ''D'' 10 {} {}
     = Some (([''S'', ''P''], ''P'', [''P'', ''D'']), ''Eco route found.'')
   \<and> map_option walkingTime (firstEdge ''D'' (adjOf noWalkGraph ''P'')) = Some (-1)
   \<and> unavailableStep walkingTime noWalkGraph ''P'' ''D''
   \<and> calculateWalkingTime noWalkGraph [''P'', ''D''] = -1"
  by code_simp

text \<open>
  C7. The claim: among the parking candidates with both legs non-empty and a walk time
  within the budget, \<open>findEcoRoute\<close> selects one of least total time. The loop takes the
  invalid value \<open>-1\<close> of a walk leg that cannot be walked for a walk time within the
  budget, and adds it to the drive time. On the scenario graph with parking at B and
  C, from D to A with a budget of 20: B has the legs D, B (drive 10) and B, A (walk 20,
  within the budget), a total of 30; the walk leg C, A of C cannot be walked, its
  aggregate is \<open>-1\<close>, and with the drive time 5 of D, C the loop computes the total 4.
  The result is C with the walk leg C, A, not B.
\<close>

theorem C7_unwalkable_candidate_is_selected:
  "findEcoRoute scenarioGraph parkingBC ''D'' ''A'' 20 {} {}
     = Some (([''D'', ''C''], ''C'', [''C'', ''A'']), ''Eco route found.'')
   \<and> calculateDrivingTime scenarioGraph [''D'', ''C''] = 5
   \<and> calculateWalkingTime scenarioGraph [''C'', ''A''] = -1
   \<and> dijkstraRestricted scenarioGraph ''D'' ''B'' {} {} = Some [''D'', ''B'']
   \<and> dijkstraRestricted scenarioGraph ''B'' ''A'' {} {} = Some [''B'', ''A'']
   \<and> calculateDrivingTime scenarioGraph [''D'', ''B''] = 10
   \<and> calculateWalkingTime scenarioGraph [''B'', ''A''] = 20"
  by code_simp

text \<open>
  C10 (amended). The claim says that the parking node of a non-empty result of
  \<open>findEcoRoute\<close> never is the source or the destination, on every graph, because
  \<open>dijkstraRestricted\<close> from a code to itself returns the empty path. That search returns
  the empty path as long as \<open>prev\<close> has no entry for the source, and \<open>prev\<close> receives one
  when a sum of the loop comes out below 0. What holds: on a graph whose times are
  durations with driving times that together fit in \<open>int\<close>, \<open>dijkstraRestricted\<close> from a
  code to itself returns the empty path, a round of the loop of \<open>findEcoRoute\<close> for a
  parking node equal to the source or to the destination leaves the best candidate
  unchanged, \<open>findEcoRoute\<close> returns, and the parking node of a non-empty result differs
  from both the source and the destination.
\<close>

theorem C10_parking_at_source_or_destination_is_discarded:
  assumes "timesFit g"
  shows "dijkstraRestricted g x x avoidNodes avoidSegments = Some [] \<and>
         ecoStep g source dest maxWalkTime avoidNodes avoidSegments b source = Some b \<and>
         ecoStep g source dest maxWalkTime avoidNodes avoidSegments b dest = Some b \<and>
         (\<exists>r. findEcoRoute g locations source dest maxWalkTime avoidNodes avoidSegments = Some r) \<and>
         (\<forall>drivePath park walkPath message.
            findEcoRoute g locations source dest maxWalkTime avoidNodes avoidSegments
              = Some ((drivePath, park, walkPath), message) \<and>
            (drivePath \<noteq> [] \<or> walkPath \<noteq> [])
            \<longrightarrow> park \<noteq> source \<and> park \<noteq> dest)"
proof (intro conjI allI impI)
  note same = dijkstraRestricted_same [OF assms]
  show "dijkstraRestricted g x x avoidNodes avoidSegments = Some []" by (rule same)
  from dijkstraRestricted_returns [OF assms, of source dest avoidNodes avoidSegments]
  obtain p where p: "dijkstraRestricted g source dest avoidNodes avoidSegments = Some p" ..
  show "ecoStep g source dest maxWalkTime avoidNodes avoidSegments b source = Some b"
    by (simp add: ecoStep_def same p)
  show "ecoStep g source dest maxWalkTime avoidNodes avoidSegments b dest = Some b"
    by (simp add: ecoStep_def same p)
  show "\<exists>r. findEcoRoute g locations source dest maxWalkTime avoidNodes avoidSegments = Some r"
    using assms by (rule findEcoRoute_returns)
  fix drivePath park walkPath message
  assume a: "findEcoRoute g locations source dest maxWalkTime avoidNodes avoidSegments
              = Some ((drivePath, park, walkPath), message) \<and>
            (drivePath \<noteq> [] \<or> walkPath \<noteq> [])"
  then have f: "findEcoRoute g locations source dest maxWalkTime avoidNodes avoidSegments
              = Some ((drivePath, park, walkPath), message)"
    and ne: "drivePath \<noteq> [] \<or> walkPath \<noteq> []" by simp_all
  note d = findEcoRoute_legs [OF f ne]
  show "park \<noteq> source"
  proof
    assume "park = source"
    with d(1) same [of source avoidNodes avoidSegments] d(3) show False by simp
  qed
  show "park \<noteq> dest"
  proof
    assume "park = dest"
    with d(2) same [of dest avoidNodes avoidSegments] d(4) show False by simp
  qed
qed

theorem C10_parking_at_source_or_destination_is_discarded_witness:
  "timesFit scenarioGraph
   \<and> dijkstraRestricted scenarioGraph ''A'' ''A'' {} {} = Some []
   \<and> findEcoRoute scenarioGraph scenarioLocations ''A'' ''D'' 15 {} {}
       = Some (([''A'', ''C''], ''C'', [''C'', ''D'']), ''Eco route found.'')
   \<and> ''C'' \<noteq> ''A'' \<and> ''C'' \<noteq> ''D''"
proof -
  note t = C10_parking_at_source_or_destination_is_discarded [OF timesFit_scenarioGraph,
      of "''A''" "{}" "{}" "''A''" "''D''" 15 initBest scenarioLocations]
  have h: "findEcoRoute scenarioGraph scenarioLocations ''A'' ''D'' 15 {} {}
     = Some (([''A'', ''C''], ''C'', [''C'', ''D'']), ''Eco route found.'')"
    by code_simp
  from t have "dijkstraRestricted scenarioGraph ''A'' ''A'' {} {} = Some []" by (rule conjunct1)
  moreover from t h have "''C'' \<noteq> ''A'' \<and> ''C'' \<noteq> ''D''" by simp
  ultimately show ?thesis using h timesFit_scenarioGraph by simp
qed

text \<open>
  The claim as stated fails on the single edge A-B with the driving time 2000000000,
  whose times are durations: from A, the round for B computes 2000000000 + 2000000000
  for A, which comes out as -294967296, below the distance 0 of A, and \<open>prev\<close> receives
  an entry for A. \<open>dijkstraRestricted\<close> from A to A then returns the path \<open>[A]\<close>, and with
  parking at A \<open>findEcoRoute\<close> from A to B selects A, the source.
\<close>

theorem C10_parking_at_source_selected_counterexample:
  "validTimes longEdgeGraph
   \<and> int_add 2000000000 2000000000 = -294967296
   \<and> dijkstraRestricted longEdgeGraph ''A'' ''A'' {} {} = Some [''A'']
   \<and> findEcoRoute longEdgeGraph
       [\<lparr>name = ''car park'', id_loc = 1, code = ''A'', hasParking = True\<rparr>] ''A'' ''B'' 10 {} {}
       = Some (([''A''], ''A'', [''A'', ''B'']), ''Eco route found.'')"
  by code_simp

end
